theory Spec2Isabelle
  imports Complex_Main
begin

section \<open>SchedulerWithReactIntegration: data model\<close>

text \<open>
  The module \<^verbatim>\<open>react-reconciler/src/SchedulerWithReactIntegration.old.js\<close> sits between
  the reconciler and the \<^verbatim>\<open>scheduler\<close> package. Its module-level variables
  (\<^verbatim>\<open>syncQueue\<close>, \<^verbatim>\<open>immediateQueueCallbackNode\<close>, \<^verbatim>\<open>isFlushingSyncQueue\<close>) become fields of
  a state record that every function takes and returns. JavaScript arrays are objects with
  identity, so the state carries a store of arrays and \<^verbatim>\<open>syncQueue\<close> holds an address:
  the local \<^verbatim>\<open>queue\<close> of the flush routine aliases the array that \<^verbatim>\<open>syncQueue.push\<close>
  mutates. Exceptions are values of a sum type.
\<close>

type_synonym react_priority = int
type_synonym scheduler_priority = int

subsection \<open>Priority constants\<close>

definition ImmediatePriority :: react_priority where "ImmediatePriority = 99"
definition UserBlockingPriority :: react_priority where "UserBlockingPriority = 98"
definition NormalPriority :: react_priority where "NormalPriority = 97"
definition LowPriority :: react_priority where "LowPriority = 96"
definition IdlePriority :: react_priority where "IdlePriority = 95"
definition NoPriority :: react_priority where "NoPriority = 90"

text \<open>
  Modelled from the spec: the five native priority constants of the host scheduling
  primitive (the \<^verbatim>\<open>scheduler\<close> package is not part of the sources). The numbers are the
  ones the source's comment above \<^verbatim>\<open>getCurrentPriorityLevel\<close> lists
  (\<^verbatim>\<open>ImmediatePriority = 1; -> 99\<close> and so on).
\<close>

definition Scheduler_ImmediatePriority :: scheduler_priority where
  "Scheduler_ImmediatePriority = 1"
definition Scheduler_UserBlockingPriority :: scheduler_priority where
  "Scheduler_UserBlockingPriority = 2"
definition Scheduler_NormalPriority :: scheduler_priority where
  "Scheduler_NormalPriority = 3"
definition Scheduler_LowPriority :: scheduler_priority where
  "Scheduler_LowPriority = 4"
definition Scheduler_IdlePriority :: scheduler_priority where
  "Scheduler_IdlePriority = 5"

subsection \<open>Errors, handles, callbacks\<close>

text \<open>
  \<^verbatim>\<open>invariant(false, msg)\<close> throws an error carrying the message; a scheduled callback
  may throw any value, which the model names by a number.
\<close>

datatype error = InvariantViolation string | CallbackError nat

text \<open>
  A callback handle is either the module's sentinel object \<^verbatim>\<open>fakeCallbackNode\<close> or a
  task object handed out by the host scheduler.
\<close>

datatype callback_node = fakeCallbackNode | HostNode nat

text \<open>
  Modelled from the spec: the rendering engine's update lane priority is an opaque token
  (\<^verbatim>\<open>ReactFiberLane\<close> is not part of the sources); one value of it is the distinguished
  synchronous one.
\<close>

datatype lane_priority = SyncLanePriority | OtherLanePriority nat

text \<open>
  A \<^verbatim>\<open>SchedulerCallback\<close> is a closure \<^verbatim>\<open>(isSync: boolean) => SchedulerCallback | null\<close>.
  The model describes what one invocation does as a script: the calls it makes back into
  this module, in order, and how it completes: it returns \<^verbatim>\<open>null\<close>, returns a
  continuation, or throws. The number only labels the closure. A script is a finite
  term, so a chain of continuations ends and a callback enqueues finitely many others;
  a closure that returns continuations for ever has no script.
\<close>

datatype callback = Callback (cb_id: nat) (cb_body: "call list") (cb_result: completion)
  and call =
      CallScheduleSyncCallback callback
    | CallFlushSyncCallbackQueue
    | CallCancelCallback callback_node
    | CallSetCurrentUpdateLanePriority lane_priority
  and completion = ReturnNull | ReturnCallback callback | Throw error

text \<open>What the host scheduler is asked to run later, and the requests it receives.\<close>

datatype host_task =
    TaskFlushSyncCallbackQueueImpl
  | TaskFlushSyncCallbackQueue
  | TaskCallback callback

datatype host_event =
    HostScheduleCallback callback_node scheduler_priority host_task
  | HostCancelCallback callback_node

text \<open>
  One entry of the invocation log: which callback was called, with which \<^verbatim>\<open>isSync\<close>
  argument, and the update lane priority and host priority current at the call.
\<close>

datatype invocation =
  Invoked (inv_callback: callback) (inv_isSync: bool)
          (inv_lane: lane_priority) (inv_priority: scheduler_priority)

text \<open>
  The state: the three module variables (\<open>None\<close> is \<^verbatim>\<open>null\<close>; \<open>syncQueue\<close> holds the
  address of an array), the store of arrays with the next free address, the rendering
  engine's current update lane priority, and the host scheduler's side: its ambient
  priority, the number of the next handle it hands out and the requests it has received.
  \<open>trace\<close> records the callback invocations; like \<open>host_log\<close> it is only written, never
  read, by the functions below.
\<close>

record state =
  syncQueue :: "nat option"
  immediateQueueCallbackNode :: "callback_node option"
  isFlushingSyncQueue :: bool
  arrays :: "nat \<Rightarrow> callback list"
  next_array :: nat
  currentUpdateLanePriority :: lane_priority
  host_priority :: scheduler_priority
  host_next_node :: nat
  host_log :: "host_event list"
  trace :: "invocation list"

section \<open>The collaborators\<close>

text \<open>Allocation of a fresh JavaScript array (an array literal, or \<^verbatim>\<open>slice\<close>).\<close>

definition new_array :: "callback list \<Rightarrow> state \<Rightarrow> nat \<times> state" where
  "new_array xs s =
     (next_array s,
      s\<lparr>arrays := (arrays s)(next_array s := xs), next_array := Suc (next_array s)\<rparr>)"

text \<open>
  Modelled from the spec: the host scheduling primitive. \<^verbatim>\<open>scheduleCallback\<close> registers a
  task at a priority and returns a new handle, \<^verbatim>\<open>cancelCallback\<close> receives a handle,
  \<^verbatim>\<open>getCurrentPriorityLevel\<close> reads the ambient priority, and \<^verbatim>\<open>runWithPriority\<close> runs a
  function with the ambient priority set for the duration of the call only and restores it
  afterwards, also when the function throws. The requests are recorded in \<open>host_log\<close>. The
  function run by \<^verbatim>\<open>runWithPriority\<close> is a closure: \<open>'l\<close> is the type of the local
  variables it captures and assigns.
\<close>

definition Scheduler_scheduleCallback ::
  "scheduler_priority \<Rightarrow> host_task \<Rightarrow> state \<Rightarrow> callback_node \<times> state" where
  "Scheduler_scheduleCallback priorityLevel task s =
     (HostNode (host_next_node s),
      s\<lparr>host_next_node := Suc (host_next_node s),
        host_log := host_log s @ [HostScheduleCallback (HostNode (host_next_node s)) priorityLevel task]\<rparr>)"

definition Scheduler_cancelCallback :: "callback_node \<Rightarrow> state \<Rightarrow> state" where
  "Scheduler_cancelCallback node s = s\<lparr>host_log := host_log s @ [HostCancelCallback node]\<rparr>"

definition Scheduler_getCurrentPriorityLevel :: "state \<Rightarrow> scheduler_priority" where
  "Scheduler_getCurrentPriorityLevel s = host_priority s"

definition Scheduler_runWithPriority ::
  "scheduler_priority \<Rightarrow> ('l \<times> state \<Rightarrow> ((error + 'a) \<times> 'l \<times> state) option) \<Rightarrow>
   'l \<times> state \<Rightarrow> ((error + 'a) \<times> 'l \<times> state) option" where
  "Scheduler_runWithPriority priorityLevel fn ls =
     (case ls of (l, s) \<Rightarrow>
        (let previousPriorityLevel = host_priority s in
         case fn (l, s\<lparr>host_priority := priorityLevel\<rparr>) of
           None \<Rightarrow> None
         | Some (r, l', s') \<Rightarrow> Some (r, l', s'\<lparr>host_priority := previousPriorityLevel\<rparr>)))"

text \<open>
  Modelled from the spec: the getter and setter of the rendering engine's current update
  lane priority.
\<close>

definition getCurrentUpdateLanePriority :: "state \<Rightarrow> lane_priority" where
  "getCurrentUpdateLanePriority s = currentUpdateLanePriority s"

definition setCurrentUpdateLanePriority :: "lane_priority \<Rightarrow> state \<Rightarrow> state" where
  "setCurrentUpdateLanePriority p s = s\<lparr>currentUpdateLanePriority := p\<rparr>"

section \<open>The module's functions\<close>

text \<open>
  \<^verbatim>\<open>now\<close> is chosen once, from the host clock value read when the module is loaded; the
  second argument is the host clock value at the call.
\<close>

definition now :: "real \<Rightarrow> real \<Rightarrow> real" where
  "now initialTimeMs Scheduler_now =
     (if initialTimeMs < 10000 then Scheduler_now else Scheduler_now - initialTimeMs)"

definition getCurrentPriorityLevel :: "state \<Rightarrow> error + react_priority" where
  "getCurrentPriorityLevel s =
     (let p = Scheduler_getCurrentPriorityLevel s in
      if p = Scheduler_ImmediatePriority then Inr ImmediatePriority
      else if p = Scheduler_UserBlockingPriority then Inr UserBlockingPriority
      else if p = Scheduler_NormalPriority then Inr NormalPriority
      else if p = Scheduler_LowPriority then Inr LowPriority
      else if p = Scheduler_IdlePriority then Inr IdlePriority
      else Inl (InvariantViolation ''Unknown priority level.''))"

definition reactPriorityToSchedulerPriority :: "react_priority \<Rightarrow> error + scheduler_priority" where
  "reactPriorityToSchedulerPriority reactPriorityLevel =
     (if reactPriorityLevel = ImmediatePriority then Inr Scheduler_ImmediatePriority
      else if reactPriorityLevel = UserBlockingPriority then Inr Scheduler_UserBlockingPriority
      else if reactPriorityLevel = NormalPriority then Inr Scheduler_NormalPriority
      else if reactPriorityLevel = LowPriority then Inr Scheduler_LowPriority
      else if reactPriorityLevel = IdlePriority then Inr Scheduler_IdlePriority
      else Inl (InvariantViolation ''Unknown priority level.''))"

definition runWithPriority ::
  "react_priority \<Rightarrow> ('l \<times> state \<Rightarrow> ((error + 'a) \<times> 'l \<times> state) option) \<Rightarrow>
   'l \<times> state \<Rightarrow> ((error + 'a) \<times> 'l \<times> state) option" where
  "runWithPriority reactPriorityLevel fn ls =
     (case reactPriorityToSchedulerPriority reactPriorityLevel of
        Inl e \<Rightarrow> Some (Inl e, ls)
      | Inr priorityLevel \<Rightarrow> Scheduler_runWithPriority priorityLevel fn ls)"

definition scheduleCallback ::
  "react_priority \<Rightarrow> callback \<Rightarrow> state \<Rightarrow> (error + callback_node) \<times> state" where
  "scheduleCallback reactPriorityLevel callback s =
     (case reactPriorityToSchedulerPriority reactPriorityLevel of
        Inl e \<Rightarrow> (Inl e, s)
      | Inr priorityLevel \<Rightarrow>
          (case Scheduler_scheduleCallback priorityLevel (TaskCallback callback) s of
             (node, s') \<Rightarrow> (Inr node, s')))"

definition scheduleSyncCallback :: "callback \<Rightarrow> state \<Rightarrow> callback_node \<times> state" where
  "scheduleSyncCallback callback s =
     (case syncQueue s of
        None \<Rightarrow>
          (case new_array [callback] s of
             (a, s1) \<Rightarrow>
               (case Scheduler_scheduleCallback Scheduler_ImmediatePriority
                       TaskFlushSyncCallbackQueueImpl (s1\<lparr>syncQueue := Some a\<rparr>) of
                  (node, s2) \<Rightarrow>
                    (fakeCallbackNode, s2\<lparr>immediateQueueCallbackNode := Some node\<rparr>)))
      | Some a \<Rightarrow>
          (fakeCallbackNode, s\<lparr>arrays := (arrays s)(a := arrays s a @ [callback])\<rparr>))"

definition cancelCallback :: "callback_node \<Rightarrow> state \<Rightarrow> state" where
  "cancelCallback callbackNode s =
     (if callbackNode \<noteq> fakeCallbackNode then Scheduler_cancelCallback callbackNode s else s)"

text \<open>
  The \<^verbatim>\<open>catch\<close> block of \<^verbatim>\<open>flushSyncCallbackQueueImpl\<close>, up to its \<^verbatim>\<open>throw error\<close>:
  \<^verbatim>\<open>syncQueue.slice(i + 1)\<close> allocates a new array, and the handle the host returns for the
  new registration is dropped.
\<close>

definition flushSyncCallbackQueueImpl_catch :: "nat \<Rightarrow> state \<Rightarrow> state" where
  "flushSyncCallbackQueueImpl_catch i s =
     (let s1 = (case syncQueue s of
                  None \<Rightarrow> s
                | Some q \<Rightarrow>
                    (case new_array (drop (i + 1) (arrays s q)) s of
                       (b, s') \<Rightarrow> s'\<lparr>syncQueue := Some b\<rparr>))
      in snd (Scheduler_scheduleCallback Scheduler_ImmediatePriority
                TaskFlushSyncCallbackQueue s1))"

text \<open>
  The functions below call each other (a callback may call \<^verbatim>\<open>flushSyncCallbackQueue\<close>,
  which runs callbacks), so they are defined together, with a bound on the depth of calls:
  the result \<open>None\<close> says that the bound was too small (below, every flush is shown to
  return under some bound, and a larger bound to change nothing). \<open>invoke\<close> is the call
  \<^verbatim>\<open>callback(isSync)\<close>, \<open>do_while\<close> is the inner \<^verbatim>\<open>do ... while (callback !== null)\<close>
  and \<open>for_loop\<close> is the body of the arrow function given to \<^verbatim>\<open>runWithPriority\<close>, whose
  captured variable \<^verbatim>\<open>i\<close> is threaded beside the state. The first Boolean argument is the
  feature flag \<^verbatim>\<open>decoupleUpdatePriorityFromScheduler\<close>.
\<close>

function (sequential) exec_call :: "nat \<Rightarrow> bool \<Rightarrow> call \<Rightarrow> state \<Rightarrow> ((error + unit) \<times> state) option"
  and exec_calls :: "nat \<Rightarrow> bool \<Rightarrow> call list \<Rightarrow> state \<Rightarrow> ((error + unit) \<times> state) option"
  and invoke ::
    "nat \<Rightarrow> bool \<Rightarrow> callback \<Rightarrow> bool \<Rightarrow> state \<Rightarrow> ((error + callback option) \<times> state) option"
  and do_while :: "nat \<Rightarrow> bool \<Rightarrow> bool \<Rightarrow> callback \<Rightarrow> state \<Rightarrow> ((error + unit) \<times> state) option"
  and for_loop ::
    "nat \<Rightarrow> bool \<Rightarrow> bool \<Rightarrow> nat \<Rightarrow> nat \<times> state \<Rightarrow> ((error + unit) \<times> nat \<times> state) option"
  and flushSyncCallbackQueueImpl :: "nat \<Rightarrow> bool \<Rightarrow> state \<Rightarrow> ((error + unit) \<times> state) option"
  and flushSyncCallbackQueue :: "nat \<Rightarrow> bool \<Rightarrow> state \<Rightarrow> ((error + unit) \<times> state) option"
where
  "exec_call 0 decouple c s = None"
| "exec_call (Suc n) decouple c s =
     (case c of
        CallScheduleSyncCallback callback \<Rightarrow> Some (Inr (), snd (scheduleSyncCallback callback s))
      | CallFlushSyncCallbackQueue \<Rightarrow> flushSyncCallbackQueue n decouple s
      | CallCancelCallback callbackNode \<Rightarrow> Some (Inr (), cancelCallback callbackNode s)
      | CallSetCurrentUpdateLanePriority p \<Rightarrow> Some (Inr (), setCurrentUpdateLanePriority p s))"
| "exec_calls 0 decouple cs s = None"
| "exec_calls (Suc n) decouple cs s =
     (case cs of
        [] \<Rightarrow> Some (Inr (), s)
      | c # cs' \<Rightarrow>
          (case exec_call n decouple c s of
             None \<Rightarrow> None
           | Some (Inl e, s') \<Rightarrow> Some (Inl e, s')
           | Some (Inr _, s') \<Rightarrow> exec_calls n decouple cs' s'))"
| "invoke 0 decouple callback isSync s = None"
| "invoke (Suc n) decouple callback isSync s =
     (case exec_calls n decouple (cb_body callback)
             (s\<lparr>trace := trace s @
                  [Invoked callback isSync (currentUpdateLanePriority s) (host_priority s)]\<rparr>) of
        None \<Rightarrow> None
      | Some (Inl e, s') \<Rightarrow> Some (Inl e, s')
      | Some (Inr _, s') \<Rightarrow>
          (case cb_result callback of
             ReturnNull \<Rightarrow> Some (Inr None, s')
           | ReturnCallback continuation \<Rightarrow> Some (Inr (Some continuation), s')
           | Throw e \<Rightarrow> Some (Inl e, s')))"
| "do_while 0 decouple isSync callback s = None"
| "do_while (Suc n) decouple isSync callback s =
     (case invoke n decouple callback isSync s of
        None \<Rightarrow> None
      | Some (Inl e, s') \<Rightarrow> Some (Inl e, s')
      | Some (Inr None, s') \<Rightarrow> Some (Inr (), s')
      | Some (Inr (Some callback'), s') \<Rightarrow> do_while n decouple isSync callback' s')"
| "for_loop 0 decouple isSync queue is = None"
| "for_loop (Suc n) decouple isSync queue is =
     (case is of (i, s) \<Rightarrow>
        if i < length (arrays s queue) then
          (case do_while n decouple isSync (arrays s queue ! i) s of
             None \<Rightarrow> None
           | Some (Inl e, s') \<Rightarrow> Some (Inl e, i, s')
           | Some (Inr _, s') \<Rightarrow> for_loop n decouple isSync queue (i + 1, s'))
        else Some (Inr (), i, s))"
| "flushSyncCallbackQueueImpl 0 decouple s = None"
| "flushSyncCallbackQueueImpl (Suc n) decouple s =
     (case syncQueue s of
        None \<Rightarrow> Some (Inr (), s)
      | Some queue \<Rightarrow>
          if isFlushingSyncQueue s then Some (Inr (), s)
          else
            (let s0 = s\<lparr>isFlushingSyncQueue := True\<rparr>;
                 i = 0
             in if decouple then
                  (let previousLanePriority = getCurrentUpdateLanePriority s0 in
                   case runWithPriority ImmediatePriority (for_loop n decouple True queue)
                          (i, setCurrentUpdateLanePriority SyncLanePriority s0) of
                     None \<Rightarrow> None
                   | Some (Inr _, i', s1) \<Rightarrow>
                       Some (Inr (),
                             (setCurrentUpdateLanePriority previousLanePriority
                                (s1\<lparr>syncQueue := None\<rparr>))\<lparr>isFlushingSyncQueue := False\<rparr>)
                   | Some (Inl e, i', s1) \<Rightarrow>
                       Some (Inl e,
                             (setCurrentUpdateLanePriority previousLanePriority
                                (flushSyncCallbackQueueImpl_catch i' s1))
                               \<lparr>isFlushingSyncQueue := False\<rparr>))
                else
                  (case runWithPriority ImmediatePriority (for_loop n decouple True queue)
                          (i, s0) of
                     None \<Rightarrow> None
                   | Some (Inr _, i', s1) \<Rightarrow>
                       Some (Inr (), s1\<lparr>syncQueue := None, isFlushingSyncQueue := False\<rparr>)
                   | Some (Inl e, i', s1) \<Rightarrow>
                       Some (Inl e,
                             (flushSyncCallbackQueueImpl_catch i' s1)
                               \<lparr>isFlushingSyncQueue := False\<rparr>))))"
| "flushSyncCallbackQueue 0 decouple s = None"
| "flushSyncCallbackQueue (Suc n) decouple s =
     (case immediateQueueCallbackNode s of
        None \<Rightarrow> flushSyncCallbackQueueImpl n decouple s
      | Some node \<Rightarrow>
          flushSyncCallbackQueueImpl n decouple
            (Scheduler_cancelCallback node (s\<lparr>immediateQueueCallbackNode := None\<rparr>)))"
  by pat_completeness auto

termination
  by (relation "measure (\<lambda>x. case x of
      Inl (Inl (n, _)) \<Rightarrow> n
    | Inl (Inr (Inl (n, _))) \<Rightarrow> n
    | Inl (Inr (Inr (n, _))) \<Rightarrow> n
    | Inr (Inl (Inl (n, _))) \<Rightarrow> n
    | Inr (Inl (Inr (n, _))) \<Rightarrow> n
    | Inr (Inr (Inl (n, _))) \<Rightarrow> n
    | Inr (Inr (Inr (n, _))) \<Rightarrow> n)") simp_all

section \<open>Notions used to state the properties\<close>

text \<open>
  The callbacks that driving \<open>c\<close> to completion invokes: \<open>c\<close> itself, the continuation
  it returns, and so on, up to the one that returns \<^verbatim>\<open>null\<close> or throws.
\<close>

fun callback_chain :: "callback \<Rightarrow> callback list" where
  "callback_chain (Callback i body ReturnNull) = [Callback i body ReturnNull]"
| "callback_chain (Callback i body (ReturnCallback c)) =
     Callback i body (ReturnCallback c) # callback_chain c"
| "callback_chain (Callback i body (Throw e)) = [Callback i body (Throw e)]"

text \<open>The error that ends the chain of \<open>c\<close>, if it ends with a throw.\<close>

fun chain_throws :: "callback \<Rightarrow> error option" where
  "chain_throws (Callback i body ReturnNull) = None"
| "chain_throws (Callback i body (ReturnCallback c)) = chain_throws c"
| "chain_throws (Callback i body (Throw e)) = Some e"

text \<open>The callbacks that the chain of \<open>c\<close> hands to \<^verbatim>\<open>scheduleSyncCallback\<close>, in order.\<close>

fun call_enqueues :: "call \<Rightarrow> callback list" where
  "call_enqueues (CallScheduleSyncCallback c) = [c]"
| "call_enqueues CallFlushSyncCallbackQueue = []"
| "call_enqueues (CallCancelCallback h) = []"
| "call_enqueues (CallSetCurrentUpdateLanePriority p) = []"

fun chain_enqueues :: "callback \<Rightarrow> callback list" where
  "chain_enqueues (Callback i body ReturnNull) = concat (map call_enqueues body)"
| "chain_enqueues (Callback i body (ReturnCallback c)) =
     concat (map call_enqueues body) @ chain_enqueues c"
| "chain_enqueues (Callback i body (Throw e)) = concat (map call_enqueues body)"

text \<open>The size of a script, counting the callbacks nested in it.\<close>

primrec callback_weight :: "callback \<Rightarrow> nat"
  and call_weight :: "call \<Rightarrow> nat"
  and completion_weight :: "completion \<Rightarrow> nat" where
  "callback_weight (Callback i body r) =
     Suc (sum_list (map call_weight body) + completion_weight r)"
| "call_weight (CallScheduleSyncCallback c) = callback_weight c"
| "call_weight CallFlushSyncCallbackQueue = 0"
| "call_weight (CallCancelCallback h) = 0"
| "call_weight (CallSetCurrentUpdateLanePriority p) = 0"
| "completion_weight ReturnNull = 0"
| "completion_weight (ReturnCallback c) = callback_weight c"
| "completion_weight (Throw e) = 0"

text \<open>
  Scripts that never throw, neither themselves nor in a continuation nor in a callback
  they enqueue.
\<close>

primrec never_throws :: "callback \<Rightarrow> bool"
  and call_never_throws :: "call \<Rightarrow> bool"
  and completion_never_throws :: "completion \<Rightarrow> bool" where
  "never_throws (Callback i body r) =
     (list_all (\<lambda>b. b) (map call_never_throws body) \<and> completion_never_throws r)"
| "call_never_throws (CallScheduleSyncCallback c) = never_throws c"
| "call_never_throws CallFlushSyncCallbackQueue = True"
| "call_never_throws (CallCancelCallback h) = True"
| "call_never_throws (CallSetCurrentUpdateLanePriority p) = True"
| "completion_never_throws ReturnNull = True"
| "completion_never_throws (ReturnCallback c) = never_throws c"
| "completion_never_throws (Throw e) = False"

text \<open>
  Scripts that never call \<^verbatim>\<open>setCurrentUpdateLanePriority\<close>, neither themselves nor in a
  continuation nor in a callback they enqueue.
\<close>

primrec never_sets_lane :: "callback \<Rightarrow> bool"
  and call_never_sets_lane :: "call \<Rightarrow> bool"
  and completion_never_sets_lane :: "completion \<Rightarrow> bool" where
  "never_sets_lane (Callback i body r) =
     (list_all (\<lambda>b. b) (map call_never_sets_lane body) \<and> completion_never_sets_lane r)"
| "call_never_sets_lane (CallScheduleSyncCallback c) = never_sets_lane c"
| "call_never_sets_lane CallFlushSyncCallbackQueue = True"
| "call_never_sets_lane (CallCancelCallback h) = True"
| "call_never_sets_lane (CallSetCurrentUpdateLanePriority p) = False"
| "completion_never_sets_lane ReturnNull = True"
| "completion_never_sets_lane (ReturnCallback c) = never_sets_lane c"
| "completion_never_sets_lane (Throw e) = True"

text \<open>
  What the invocation log says apart from the lane priority: the callback, the flag it was
  called with and the host priority it ran at.
\<close>

definition observed :: "invocation \<Rightarrow> callback \<times> bool \<times> scheduler_priority" where
  "observed v = (inv_callback v, inv_isSync v, inv_priority v)"

definition sync_at_immediate :: "callback \<Rightarrow> callback \<times> bool \<times> scheduler_priority" where
  "sync_at_immediate c = (c, True, Scheduler_ImmediatePriority)"

text \<open>Calling \<^verbatim>\<open>scheduleSyncCallback\<close> on each callback of a list, in order.\<close>

definition enqueue_all :: "callback list \<Rightarrow> state \<Rightarrow> state" where
  "enqueue_all cs s = fold (\<lambda>c s'. snd (scheduleSyncCallback c s')) cs s"

text \<open>Host requests that are cancellations.\<close>

fun is_cancel :: "host_event \<Rightarrow> bool" where
  "is_cancel (HostCancelCallback h) = True"
| "is_cancel (HostScheduleCallback h p t) = False"

text \<open>
  What a call made by a running callback can change while a flush of the array \<open>a\<close> is in
  progress: the guard stays set, \<^verbatim>\<open>syncQueue\<close> stays the array \<open>a\<close>, which only
  grows at its end, and the host receives cancellations only.
\<close>

definition during_flush :: "nat \<Rightarrow> callback list \<Rightarrow> state \<Rightarrow> state \<Rightarrow> bool" where
  "during_flush a added s s' \<longleftrightarrow>
     isFlushingSyncQueue s' \<and> syncQueue s' = Some a \<and>
     arrays s' a = arrays s a @ added \<and>
     host_priority s' = host_priority s \<and>
     host_next_node s' = host_next_node s \<and>
     next_array s' = next_array s \<and>
     (immediateQueueCallbackNode s = None \<longrightarrow> immediateQueueCallbackNode s' = None) \<and>
     (\<exists>evs. host_log s' = host_log s @ evs \<and> list_all is_cancel evs)"

text \<open>
  What the loop of a flush of the array \<open>a\<close> has done when it stops: started at index
  \<open>i\<close> in state \<open>s\<close>, it stops at index \<open>i'\<close> in state \<open>s'\<close>, normally or with
  an error. The entries it ran are those from \<open>i\<close> up to, on an error, the one at
  \<open>i'\<close>; the array has grown by what their chains enqueued, the log by their chains,
  and only the last of them, on an error, throws. When no entry from \<open>i\<close> on ever sets
  the lane priority, it is unchanged and every invocation saw it; and a property of
  scripts that passes from a callback to those it enqueues, and holds for the entries from
  \<open>i\<close> on, holds for the entries added as well.
\<close>

definition flushed_upto ::
  "nat \<Rightarrow> nat \<Rightarrow> state \<Rightarrow> error + unit \<Rightarrow> nat \<Rightarrow> state \<Rightarrow> bool" where
  "flushed_upto a i s res i' s' \<longleftrightarrow>
     (let final = arrays s' a;
          k = (case res of Inl e \<Rightarrow> Suc i' | Inr u \<Rightarrow> i');
          ran = take (k - i) (drop i final)
      in during_flush a (concat (map chain_enqueues ran)) s s' \<and>
         i \<le> i' \<and> k \<le> length final \<and>
         (case res of Inl e \<Rightarrow> True | Inr u \<Rightarrow> i' = length final) \<and>
         map observed (trace s') =
           map observed (trace s) @
           map (\<lambda>c. (c, True, host_priority s)) (concat (map callback_chain ran)) \<and>
         map chain_throws ran =
           replicate (i' - i) None @ (case res of Inl e \<Rightarrow> [Some e] | Inr u \<Rightarrow> []) \<and>
         (\<forall>P. (\<forall>cb. P cb \<longrightarrow> list_all P (chain_enqueues cb)) \<longrightarrow>
              list_all P (drop i (arrays s a)) \<longrightarrow> list_all P (drop i final)) \<and>
         (list_all never_sets_lane (drop i (arrays s a)) \<longrightarrow>
            list_all never_sets_lane (drop i final) \<and>
            currentUpdateLanePriority s' = currentUpdateLanePriority s \<and>
            trace s' = trace s @
              map (\<lambda>c. Invoked c True (currentUpdateLanePriority s) (host_priority s))
                (concat (map callback_chain ran))))"

text \<open>
  The two ways a flush starts: the host runs the registered \<^verbatim>\<open>flushSyncCallbackQueueImpl\<close>
  (the automatic flush), or somebody calls \<^verbatim>\<open>flushSyncCallbackQueue\<close> (the explicit one).
\<close>

definition flush_via :: "bool \<Rightarrow> nat \<Rightarrow> bool \<Rightarrow> state \<Rightarrow> ((error + unit) \<times> state) option" where
  "flush_via explicit n decouple s =
     (if explicit then flushSyncCallbackQueue n decouple s
      else flushSyncCallbackQueueImpl n decouple s)"

text \<open>
  The state when the module has been loaded (\<^verbatim>\<open>syncQueue = null\<close>,
  \<^verbatim>\<open>immediateQueueCallbackNode = null\<close>, \<^verbatim>\<open>isFlushingSyncQueue = false\<close>), with nothing
  requested from the host yet and the host at its normal priority.
\<close>

definition initial_state :: state where
  "initial_state =
     \<lparr>syncQueue = None, immediateQueueCallbackNode = None, isFlushingSyncQueue = False,
      arrays = (\<lambda>a. []), next_array = 0,
      currentUpdateLanePriority = OtherLanePriority 0,
      host_priority = Scheduler_NormalPriority, host_next_node = 0,
      host_log = [], trace = []\<rparr>"

section \<open>The bound on the depth of calls\<close>

lemma runWithPriority_mono:
  assumes "\<And>x r. f x = Some r \<Longrightarrow> g x = Some r"
    and "runWithPriority p f ls = Some r"
  shows "runWithPriority p g ls = Some r"
  using assms(2)
  by (auto simp: runWithPriority_def Scheduler_runWithPriority_def Let_def
      split: sum.splits prod.splits option.splits dest!: assms(1))

lemma fuel_mono_all:
  "n \<le> m \<Longrightarrow>
   (\<forall>d c s r. exec_call n d c s = Some r \<longrightarrow> exec_call m d c s = Some r) \<and>
   (\<forall>d cs s r. exec_calls n d cs s = Some r \<longrightarrow> exec_calls m d cs s = Some r) \<and>
   (\<forall>d cb b s r. invoke n d cb b s = Some r \<longrightarrow> invoke m d cb b s = Some r) \<and>
   (\<forall>d b cb s r. do_while n d b cb s = Some r \<longrightarrow> do_while m d b cb s = Some r) \<and>
   (\<forall>d b q x r. for_loop n d b q x = Some r \<longrightarrow> for_loop m d b q x = Some r) \<and>
   (\<forall>d s r. flushSyncCallbackQueueImpl n d s = Some r \<longrightarrow>
        flushSyncCallbackQueueImpl m d s = Some r) \<and>
   (\<forall>d s r. flushSyncCallbackQueue n d s = Some r \<longrightarrow> flushSyncCallbackQueue m d s = Some r)"
proof (induction n arbitrary: m)
  case 0
  show ?case by simp
next
  case (Suc n)
  then obtain m' where m: "m = Suc m'" and le: "n \<le> m'"
    by (cases m) auto
  note IH = Suc.IH[OF le]
  note h1 = IH[THEN conjunct1, rule_format]
  note h2 = IH[THEN conjunct2, THEN conjunct1, rule_format]
  note t2 = IH[THEN conjunct2, THEN conjunct2]
  note h3 = t2[THEN conjunct1, rule_format]
  note h4 = t2[THEN conjunct2, THEN conjunct1, rule_format]
  note t4 = t2[THEN conjunct2, THEN conjunct2]
  note h5 = t4[THEN conjunct1, rule_format]
  note h6 = t4[THEN conjunct2, THEN conjunct1, rule_format]
  note h7 = t4[THEN conjunct2, THEN conjunct2, rule_format]
  have c1: "exec_call m d c s = Some r" if "exec_call (Suc n) d c s = Some r" for d c s r
    using that unfolding m by (cases c) (auto dest: h7)
  have c2: "exec_calls m d cs s = Some r" if "exec_calls (Suc n) d cs s = Some r" for d cs s r
    using that unfolding m
    by (cases cs) (auto split: option.splits sum.splits prod.splits dest!: h1 dest: h2)
  have c3: "invoke m d cb b s = Some r" if "invoke (Suc n) d cb b s = Some r" for d cb b s r
    using that unfolding m
    by (auto split: option.splits sum.splits prod.splits completion.splits dest!: h2)
  have c4: "do_while m d b cb s = Some r" if "do_while (Suc n) d b cb s = Some r" for d b cb s r
    using that unfolding m
    by (auto split: option.splits sum.splits prod.splits dest!: h3 dest: h4)
  have c5: "for_loop m d b q x = Some r" if "for_loop (Suc n) d b q x = Some r" for d b q x r
    using that unfolding m
    by (cases x) (auto split: option.splits sum.splits prod.splits if_splits dest!: h4 dest: h5)
  have c6: "flushSyncCallbackQueueImpl m d s = Some r"
    if "flushSyncCallbackQueueImpl (Suc n) d s = Some r" for d s r
  proof (cases "syncQueue s")
    case None
    then show ?thesis using that unfolding m by simp
  next
    case (Some q)
    show ?thesis
    proof (cases "isFlushingSyncQueue s")
      case True
      then show ?thesis using that Some unfolding m by simp
    next
      case False
      define s0 where "s0 =
        (if d then setCurrentUpdateLanePriority SyncLanePriority (s\<lparr>isFlushingSyncQueue := True\<rparr>)
         else s\<lparr>isFlushingSyncQueue := True\<rparr>)"
      from that Some False obtain x where
        x: "runWithPriority ImmediatePriority (for_loop n d True q) (0, s0) = Some x"
        by (cases d) (auto simp: s0_def Let_def split: option.splits)
      have "runWithPriority ImmediatePriority (for_loop m' d True q) (0, s0) = Some x"
        by (rule runWithPriority_mono[OF h5 x])
      with x that Some False show ?thesis
        unfolding m by (cases d) (simp_all add: s0_def Let_def)
    qed
  qed
  have c7: "flushSyncCallbackQueue m d s = Some r"
    if "flushSyncCallbackQueue (Suc n) d s = Some r" for d s r
    using that unfolding m by (auto split: option.splits dest: h6)
  show ?case using c1 c2 c3 c4 c5 c6 c7 by blast
qed

section \<open>The flush loop\<close>

lemmas exec_call_mono = fuel_mono_all[THEN conjunct1, rule_format]
lemmas exec_calls_mono = fuel_mono_all[THEN conjunct2, THEN conjunct1, rule_format]
lemmas invoke_mono = fuel_mono_all[THEN conjunct2, THEN conjunct2, THEN conjunct1, rule_format]
lemmas do_while_mono =
  fuel_mono_all[THEN conjunct2, THEN conjunct2, THEN conjunct2, THEN conjunct1, rule_format]
lemmas for_loop_mono =
  fuel_mono_all[THEN conjunct2, THEN conjunct2, THEN conjunct2, THEN conjunct2,
    THEN conjunct1, rule_format]
lemmas flushSyncCallbackQueueImpl_mono =
  fuel_mono_all[THEN conjunct2, THEN conjunct2, THEN conjunct2, THEN conjunct2,
    THEN conjunct2, THEN conjunct1, rule_format]
lemmas flushSyncCallbackQueue_mono =
  fuel_mono_all[THEN conjunct2, THEN conjunct2, THEN conjunct2, THEN conjunct2,
    THEN conjunct2, THEN conjunct2, rule_format]

subsection \<open>Weights\<close>

lemma weight_call_enqueues:
  "sum_list (map callback_weight (concat (map call_enqueues body))) \<le>
   sum_list (map call_weight body)"
proof (induction body)
  case Nil
  show ?case by simp
next
  case (Cons c body)
  then show ?case by (cases c) simp_all
qed

lemma weight_chain_enqueues:
  "sum_list (map callback_weight (chain_enqueues c)) < callback_weight c"
  using weight_call_enqueues
  by (induction c rule: chain_enqueues.induct) (simp_all add: le_imp_less_Suc add_le_mono)

subsection \<open>Calls made while a flush is in progress\<close>

lemma during_flush_refl:
  "isFlushingSyncQueue s \<Longrightarrow> syncQueue s = Some a \<Longrightarrow> during_flush a [] s s"
  by (simp add: during_flush_def)

lemma during_flush_trans:
  "during_flush a xs s s1 \<Longrightarrow> during_flush a ys s1 s2 \<Longrightarrow> during_flush a (xs @ ys) s s2"
  by (auto simp: during_flush_def)

lemma during_flush_trace [simp]:
  "during_flush a xs (s\<lparr>trace := t\<rparr>) s' = during_flush a xs s s'"
  by (simp add: during_flush_def)

lemma exec_call_during_flush:
  assumes "isFlushingSyncQueue s" and "syncQueue s = Some a"
  shows "\<exists>s'. exec_call (Suc (Suc (Suc n))) d c s = Some (Inr (), s') \<and>
           during_flush a (call_enqueues c) s s' \<and> trace s' = trace s \<and>
           (call_never_sets_lane c \<longrightarrow>
              currentUpdateLanePriority s' = currentUpdateLanePriority s)"
  using assms
  by (cases c)
    (auto simp: during_flush_def scheduleSyncCallback_def cancelCallback_def
      Scheduler_cancelCallback_def setCurrentUpdateLanePriority_def
      split: option.splits)

lemma exec_calls_during_flush:
  assumes "isFlushingSyncQueue s" and "syncQueue s = Some a"
  shows "\<exists>n s'. exec_calls n d cs s = Some (Inr (), s') \<and>
           during_flush a (concat (map call_enqueues cs)) s s' \<and> trace s' = trace s \<and>
           (list_all call_never_sets_lane cs \<longrightarrow>
              currentUpdateLanePriority s' = currentUpdateLanePriority s)"
  using assms
proof (induction cs arbitrary: s)
  case Nil
  show ?case
    by (rule exI[of _ "Suc 0"], rule exI[of _ s]) (simp add: during_flush_refl Nil)
next
  case (Cons c cs)
  from exec_call_during_flush[OF Cons.prems, of 0 d c] obtain s1 where
    c: "exec_call 3 d c s = Some (Inr (), s1)"
    and f1: "during_flush a (call_enqueues c) s s1" and t1: "trace s1 = trace s"
    and l1: "call_never_sets_lane c \<longrightarrow>
      currentUpdateLanePriority s1 = currentUpdateLanePriority s"
    by (auto simp: numeral_3_eq_3)
  from f1 have "isFlushingSyncQueue s1" "syncQueue s1 = Some a"
    by (simp_all add: during_flush_def)
  from Cons.IH[OF this] obtain n s2 where
    cs: "exec_calls n d cs s1 = Some (Inr (), s2)"
    and f2: "during_flush a (concat (map call_enqueues cs)) s1 s2" and t2: "trace s2 = trace s1"
    and l2: "list_all call_never_sets_lane cs \<longrightarrow>
      currentUpdateLanePriority s2 = currentUpdateLanePriority s1"
    by auto
  let ?m = "max 3 n"
  have "exec_call ?m d c s = Some (Inr (), s1)"
    by (rule exec_call_mono[OF _ c]) simp
  moreover have "exec_calls ?m d cs s1 = Some (Inr (), s2)"
    by (rule exec_calls_mono[OF _ cs]) simp
  ultimately have "exec_calls (Suc ?m) d (c # cs) s = Some (Inr (), s2)"
    by simp
  moreover have "during_flush a (concat (map call_enqueues (c # cs))) s s2"
    using during_flush_trans[OF f1 f2] by simp
  ultimately show ?case using t1 t2 l1 l2
    by (intro exI[of _ "Suc ?m"] exI[of _ s2]) simp
qed

lemma invoke_during_flush:
  assumes "isFlushingSyncQueue s" and "syncQueue s = Some a"
  shows "\<exists>n s'. invoke n d cb b s =
             Some ((case cb_result cb of
                      ReturnNull \<Rightarrow> Inr None
                    | ReturnCallback c \<Rightarrow> Inr (Some c)
                    | Throw e \<Rightarrow> Inl e), s') \<and>
           during_flush a (concat (map call_enqueues (cb_body cb))) s s' \<and>
           trace s' = trace s @
             [Invoked cb b (currentUpdateLanePriority s) (host_priority s)] \<and>
           (list_all call_never_sets_lane (cb_body cb) \<longrightarrow>
              currentUpdateLanePriority s' = currentUpdateLanePriority s)"
proof -
  let ?s0 = "s\<lparr>trace := trace s @
      [Invoked cb b (currentUpdateLanePriority s) (host_priority s)]\<rparr>"
  have "isFlushingSyncQueue ?s0" "syncQueue ?s0 = Some a"
    using assms by simp_all
  from exec_calls_during_flush[OF this, of d "cb_body cb"] obtain n s' where
    "exec_calls n d (cb_body cb) ?s0 = Some (Inr (), s')"
    and "during_flush a (concat (map call_enqueues (cb_body cb))) s s'"
    and "trace s' = trace ?s0"
    and "list_all call_never_sets_lane (cb_body cb) \<longrightarrow>
      currentUpdateLanePriority s' = currentUpdateLanePriority ?s0"
    by auto
  then have "invoke (Suc n) d cb b s =
             Some ((case cb_result cb of
                      ReturnNull \<Rightarrow> Inr None
                    | ReturnCallback c \<Rightarrow> Inr (Some c)
                    | Throw e \<Rightarrow> Inl e), s') \<and>
           during_flush a (concat (map call_enqueues (cb_body cb))) s s' \<and>
           trace s' = trace s @
             [Invoked cb b (currentUpdateLanePriority s) (host_priority s)] \<and>
           (list_all call_never_sets_lane (cb_body cb) \<longrightarrow>
              currentUpdateLanePriority s' = currentUpdateLanePriority s)"
    by (simp split: completion.splits)
  then show ?thesis
    by (intro exI[of _ "Suc n"] exI[of _ s'])
qed


lemma never_throws_body [simp]:
  "list_all (\<lambda>b. b) (map call_never_throws body) = list_all call_never_throws body"
  by (induction body) simp_all

lemma never_throws_call_enqueues:
  "list_all call_never_throws body \<Longrightarrow>
   list_all never_throws (concat (map call_enqueues body))"
proof (induction body)
  case Nil
  show ?case by simp
next
  case (Cons c body)
  then show ?case by (cases c) simp_all
qed

lemma never_throws_chain_enqueues:
  "never_throws cb \<Longrightarrow> list_all never_throws (chain_enqueues cb)"
  by (induction cb rule: chain_enqueues.induct) (simp_all add: never_throws_call_enqueues)

lemma never_throws_chain_throws: "never_throws cb \<Longrightarrow> chain_throws cb = None"
  by (induction cb rule: chain_throws.induct) simp_all

lemma never_sets_lane_body [simp]:
  "list_all (\<lambda>b. b) (map call_never_sets_lane body) = list_all call_never_sets_lane body"
  by (induction body) simp_all

lemma never_sets_lane_call_enqueues:
  "list_all call_never_sets_lane body \<Longrightarrow>
   list_all never_sets_lane (concat (map call_enqueues body))"
proof (induction body)
  case Nil
  show ?case by simp
next
  case (Cons c body)
  then show ?case by (cases c) simp_all
qed

lemma never_sets_lane_chain_enqueues:
  "never_sets_lane cb \<Longrightarrow> list_all never_sets_lane (chain_enqueues cb)"
  by (induction cb rule: chain_enqueues.induct) (simp_all add: never_sets_lane_call_enqueues)

lemma do_while_during_flush:
  assumes "isFlushingSyncQueue s" and "syncQueue s = Some a"
  shows "\<exists>n s'. do_while n d b cb s =
             Some ((case chain_throws cb of None \<Rightarrow> Inr () | Some e \<Rightarrow> Inl e), s') \<and>
           during_flush a (chain_enqueues cb) s s' \<and>
           map observed (trace s') =
             map observed (trace s) @ map (\<lambda>c. (c, b, host_priority s)) (callback_chain cb) \<and>
           (\<exists>rest. trace s' = trace s @
              Invoked cb b (currentUpdateLanePriority s) (host_priority s) # rest) \<and>
           (never_sets_lane cb \<longrightarrow>
              currentUpdateLanePriority s' = currentUpdateLanePriority s \<and>
              trace s' = trace s @
                map (\<lambda>c. Invoked c b (currentUpdateLanePriority s) (host_priority s))
                  (callback_chain cb))"
  using assms
proof (induction cb arbitrary: s rule: callback_chain.induct)
  case (1 i body)
  from invoke_during_flush[OF 1, of d "Callback i body ReturnNull" b] obtain n s' where
    "invoke n d (Callback i body ReturnNull) b s = Some (Inr None, s')"
    and "during_flush a (concat (map call_enqueues body)) s s'"
    and "trace s' = trace s @
      [Invoked (Callback i body ReturnNull) b (currentUpdateLanePriority s) (host_priority s)]"
    and "list_all call_never_sets_lane body \<longrightarrow>
      currentUpdateLanePriority s' = currentUpdateLanePriority s"
    by auto
  then show ?case
    by (intro exI[of _ "Suc n"] exI[of _ s']) (simp add: observed_def)
next
  case (2 i body c)
  let ?cb = "Callback i body (ReturnCallback c)"
  from invoke_during_flush[OF "2.prems", of d ?cb b] obtain n1 s1 where
    inv: "invoke n1 d ?cb b s = Some (Inr (Some c), s1)"
    and f1: "during_flush a (concat (map call_enqueues body)) s s1"
    and t1: "trace s1 = trace s @
      [Invoked ?cb b (currentUpdateLanePriority s) (host_priority s)]"
    and l1: "list_all call_never_sets_lane body \<longrightarrow>
      currentUpdateLanePriority s1 = currentUpdateLanePriority s"
    by auto
  from f1 have g1: "isFlushingSyncQueue s1" "syncQueue s1 = Some a"
    and p1: "host_priority s1 = host_priority s"
    by (simp_all add: during_flush_def)
  from "2.IH"[OF g1] obtain n2 s2 rest where
    dw: "do_while n2 d b c s1 =
           Some ((case chain_throws c of None \<Rightarrow> Inr () | Some e \<Rightarrow> Inl e), s2)"
    and f2: "during_flush a (chain_enqueues c) s1 s2"
    and t2: "map observed (trace s2) =
      map observed (trace s1) @ map (\<lambda>c. (c, b, host_priority s1)) (callback_chain c)"
    and r2: "trace s2 = trace s1 @
      Invoked c b (currentUpdateLanePriority s1) (host_priority s1) # rest"
    and l2: "never_sets_lane c \<longrightarrow>
      currentUpdateLanePriority s2 = currentUpdateLanePriority s1 \<and>
      trace s2 = trace s1 @
        map (\<lambda>c. Invoked c b (currentUpdateLanePriority s1) (host_priority s1))
          (callback_chain c)"
    by auto
  let ?m = "max n1 n2"
  have "invoke ?m d ?cb b s = Some (Inr (Some c), s1)"
    by (rule invoke_mono[OF _ inv]) simp
  moreover have "do_while ?m d b c s1 =
      Some ((case chain_throws c of None \<Rightarrow> Inr () | Some e \<Rightarrow> Inl e), s2)"
    by (rule do_while_mono[OF _ dw]) simp
  ultimately have "do_while (Suc ?m) d b ?cb s =
      Some ((case chain_throws ?cb of None \<Rightarrow> Inr () | Some e \<Rightarrow> Inl e), s2)"
    by simp
  moreover have "during_flush a (chain_enqueues ?cb) s s2"
    using during_flush_trans[OF f1 f2] by simp
  moreover have "map observed (trace s2) =
      map observed (trace s) @ map (\<lambda>c. (c, b, host_priority s)) (callback_chain ?cb)"
    using t1 t2 p1 by (simp add: observed_def)
  moreover have "\<exists>rest. trace s2 = trace s @
      Invoked ?cb b (currentUpdateLanePriority s) (host_priority s) # rest"
    using t1 r2 by simp
  moreover have "never_sets_lane ?cb \<longrightarrow>
      currentUpdateLanePriority s2 = currentUpdateLanePriority s \<and>
      trace s2 = trace s @
        map (\<lambda>c. Invoked c b (currentUpdateLanePriority s) (host_priority s))
          (callback_chain ?cb)"
    using t1 l1 l2 p1 by simp
  ultimately show ?case
    by (intro exI[of _ "Suc ?m"] exI[of _ s2]) simp
next
  case (3 i body e)
  from invoke_during_flush[OF 3, of d "Callback i body (Throw e)" b] obtain n s' where
    "invoke n d (Callback i body (Throw e)) b s = Some (Inl e, s')"
    and "during_flush a (concat (map call_enqueues body)) s s'"
    and "trace s' = trace s @
      [Invoked (Callback i body (Throw e)) b (currentUpdateLanePriority s) (host_priority s)]"
    and "list_all call_never_sets_lane body \<longrightarrow>
      currentUpdateLanePriority s' = currentUpdateLanePriority s"
    by auto
  then show ?case
    by (intro exI[of _ "Suc n"] exI[of _ s']) (simp add: observed_def)
qed


lemma take_drop_step:
  "i < length xs \<Longrightarrow> i < k \<Longrightarrow>
   take (k - i) (drop i xs) = xs ! i # take (k - Suc i) (drop (Suc i) xs)"
proof -
  assume a: "i < length xs" "i < k"
  then have "k - i = Suc (k - Suc i)" by simp
  moreover from a have "drop i xs = xs ! i # drop (Suc i) xs"
    by (simp add: Cons_nth_drop_Suc)
  ultimately show ?thesis by simp
qed

lemma for_loop_during_flush:
  assumes "isFlushingSyncQueue s" and "syncQueue s = Some a" and "i \<le> length (arrays s a)"
  shows "\<exists>n res i' s'. for_loop n d True a (i, s) = Some (res, i', s') \<and>
           flushed_upto a i s res i' s' \<and>
           (\<exists>more. trace s' = trace s @ more \<and>
              (i < length (arrays s a) \<longrightarrow>
                 (\<exists>rest. more =
                    Invoked (arrays s a ! i) True (currentUpdateLanePriority s) (host_priority s)
                      # rest)))"
  using assms
proof (induction "sum_list (map callback_weight (drop i (arrays s a)))" arbitrary: i s
    rule: less_induct)
  case less
  note guard = less.prems(1) and queue = less.prems(2) and bound = less.prems(3)
  show ?case
  proof (cases "i < length (arrays s a)")
    case False
    with bound have i: "i = length (arrays s a)" by simp
    have "for_loop (Suc 0) d True a (i, s) = Some (Inr (), i, s)"
      using i by simp
    moreover have "flushed_upto a i s (Inr ()) i s"
      using i guard queue by (simp add: flushed_upto_def during_flush_refl)
    ultimately have "for_loop (Suc 0) d True a (i, s) = Some (Inr (), i, s) \<and>
        flushed_upto a i s (Inr ()) i s \<and>
        (\<exists>more. trace s = trace s @ more \<and>
           (i < length (arrays s a) \<longrightarrow>
              (\<exists>rest. more =
                 Invoked (arrays s a ! i) True (currentUpdateLanePriority s) (host_priority s)
                   # rest)))"
      using False by simp
    then show ?thesis by fast
  next
    case True
    let ?cb = "arrays s a ! i"
    from do_while_during_flush[OF guard queue, of d True ?cb] obtain n1 s1 rest where
      dw: "do_while n1 d True ?cb s =
             Some ((case chain_throws ?cb of None \<Rightarrow> Inr () | Some e \<Rightarrow> Inl e), s1)"
      and f1: "during_flush a (chain_enqueues ?cb) s s1"
      and t1: "map observed (trace s1) =
        map observed (trace s) @ map (\<lambda>c. (c, True, host_priority s)) (callback_chain ?cb)"
      and r1: "trace s1 = trace s @
        Invoked ?cb True (currentUpdateLanePriority s) (host_priority s) # rest"
      and l1: "never_sets_lane ?cb \<longrightarrow>
        currentUpdateLanePriority s1 = currentUpdateLanePriority s \<and>
        trace s1 = trace s @
          map (\<lambda>c. Invoked c True (currentUpdateLanePriority s) (host_priority s))
            (callback_chain ?cb)"
      by auto
    from f1 have g1: "isFlushingSyncQueue s1" "syncQueue s1 = Some a"
      and a1: "arrays s1 a = arrays s a @ chain_enqueues ?cb"
      and p1: "host_priority s1 = host_priority s"
      by (simp_all add: during_flush_def)
    from True a1 have nth1: "arrays s1 a ! i = ?cb" and len1: "i < length (arrays s1 a)"
      by (simp_all add: nth_append)
    have nl: "never_sets_lane ?cb \<and>
        list_all never_sets_lane (drop (Suc i) (arrays s1 a)) \<and>
        currentUpdateLanePriority s1 = currentUpdateLanePriority s \<and>
        trace s1 = trace s @
          map (\<lambda>c. Invoked c True (currentUpdateLanePriority s) (host_priority s))
            (callback_chain ?cb)"
      if "list_all never_sets_lane (drop i (arrays s a))"
    proof -
      have "drop i (arrays s a) = ?cb # drop (Suc i) (arrays s a)"
        using True by (simp add: Cons_nth_drop_Suc)
      with that have cb: "never_sets_lane ?cb"
        and tl: "list_all never_sets_lane (drop (Suc i) (arrays s a))"
        by simp_all
      have "drop (Suc i) (arrays s1 a) = drop (Suc i) (arrays s a) @ chain_enqueues ?cb"
        using True a1 by simp
      with tl never_sets_lane_chain_enqueues[OF cb]
      have "list_all never_sets_lane (drop (Suc i) (arrays s1 a))" by simp
      with cb l1 show ?thesis by simp
    qed
    have drop1: "drop i (arrays s1 a) = ?cb # drop (Suc i) (arrays s1 a)"
      using len1 nth1 by (metis Cons_nth_drop_Suc)
    have cl1: "P ?cb \<and> list_all P (drop (Suc i) (arrays s1 a))"
      if "\<forall>cb. P cb \<longrightarrow> list_all P (chain_enqueues cb)"
        and "list_all P (drop i (arrays s a))" for P
    proof -
      have "drop i (arrays s a) = ?cb # drop (Suc i) (arrays s a)"
        using True by (simp add: Cons_nth_drop_Suc)
      with that(2) have cb: "P ?cb" and tl: "list_all P (drop (Suc i) (arrays s a))"
        by simp_all
      have "drop (Suc i) (arrays s1 a) = drop (Suc i) (arrays s a) @ chain_enqueues ?cb"
        using True a1 by simp
      with tl that(1) cb show ?thesis by simp
    qed
    have cl1': "\<forall>P. (\<forall>cb. P cb \<longrightarrow> list_all P (chain_enqueues cb)) \<longrightarrow>
        list_all P (drop i (arrays s a)) \<longrightarrow> list_all P (drop i (arrays s1 a))"
    proof (intro allI impI)
      fix P
      assume "\<forall>cb. P cb \<longrightarrow> list_all P (chain_enqueues cb)"
        and "list_all P (drop i (arrays s a))"
      from cl1[OF this] show "list_all P (drop i (arrays s1 a))"
        by (subst drop1) simp
    qed
    show ?thesis
    proof (cases "chain_throws ?cb")
      case (Some e)
      with dw True have run: "for_loop (Suc n1) d True a (i, s) = Some (Inl e, i, s1)"
        by simp
      have "take (Suc i - i) (drop i (arrays s1 a)) = [?cb]"
        using take_drop_step[OF len1, of "Suc i"] nth1 by simp
      moreover have nl1: "list_all never_sets_lane (drop i (arrays s a)) \<longrightarrow>
          list_all never_sets_lane (drop i (arrays s1 a)) \<and>
          currentUpdateLanePriority s1 = currentUpdateLanePriority s \<and>
          trace s1 = trace s @
            map (\<lambda>c. Invoked c True (currentUpdateLanePriority s) (host_priority s))
              (callback_chain ?cb)"
        using nl drop1 by simp
      ultimately have "flushed_upto a i s (Inl e) i s1"
        using f1 t1 len1 Some cl1' by (simp add: flushed_upto_def)
      with run have "for_loop (Suc n1) d True a (i, s) = Some (Inl e, i, s1) \<and>
          flushed_upto a i s (Inl e) i s1 \<and>
          (\<exists>more. trace s1 = trace s @ more \<and>
             (i < length (arrays s a) \<longrightarrow>
                (\<exists>rest. more =
                   Invoked (arrays s a ! i) True (currentUpdateLanePriority s) (host_priority s)
                     # rest)))"
        using r1 by simp
      then show ?thesis by fast
    next
      case None
      have "sum_list (map callback_weight (drop (Suc i) (arrays s1 a))) =
          sum_list (map callback_weight (drop (Suc i) (arrays s a))) +
          sum_list (map callback_weight (chain_enqueues ?cb))"
        using True a1 by simp
      also have "\<dots> < callback_weight ?cb +
          sum_list (map callback_weight (drop (Suc i) (arrays s a)))"
        using weight_chain_enqueues[of ?cb] by simp
      also have "\<dots> = sum_list (map callback_weight (drop i (arrays s a)))"
        using True by (simp add: Cons_nth_drop_Suc[symmetric])
      finally have less': "sum_list (map callback_weight (drop (Suc i) (arrays s1 a))) <
          sum_list (map callback_weight (drop i (arrays s a)))" .
      from len1 have "Suc i \<le> length (arrays s1 a)" by simp
      from less.hyps[OF less' g1 this] obtain n2 res i' s2 where
        fl: "for_loop n2 d True a (Suc i, s1) = Some (res, i', s2)"
        and post: "flushed_upto a (Suc i) s1 res i' s2"
        and more2: "\<exists>more. trace s2 = trace s1 @ more"
        by auto
      let ?m = "max n1 n2"
      have "do_while ?m d True ?cb s = Some (Inr (), s1)"
        using do_while_mono[OF _ dw, of ?m] None by simp
      moreover have "for_loop ?m d True a (Suc i, s1) = Some (res, i', s2)"
        by (rule for_loop_mono[OF _ fl]) simp
      ultimately have run: "for_loop (Suc ?m) d True a (i, s) = Some (res, i', s2)"
        using True by simp
      define k where "k = (case res of Inl e \<Rightarrow> Suc i' | Inr u \<Rightarrow> i')"
      define ran where "ran = take (k - Suc i) (drop (Suc i) (arrays s2 a))"
      from post have f2: "during_flush a (concat (map chain_enqueues ran)) s1 s2"
        and i': "Suc i \<le> i'" and k: "k \<le> length (arrays s2 a)"
        and full: "case res of Inl e \<Rightarrow> True | Inr u \<Rightarrow> i' = length (arrays s2 a)"
        and t2: "map observed (trace s2) =
          map observed (trace s1) @
          map (\<lambda>c. (c, True, host_priority s1)) (concat (map callback_chain ran))"
        and c2: "map chain_throws ran =
          replicate (i' - Suc i) None @ (case res of Inl e \<Rightarrow> [Some e] | Inr u \<Rightarrow> [])"
        and cl2: "\<forall>P. (\<forall>cb. P cb \<longrightarrow> list_all P (chain_enqueues cb)) \<longrightarrow>
          list_all P (drop (Suc i) (arrays s1 a)) \<longrightarrow>
          list_all P (drop (Suc i) (arrays s2 a))"
        and l2: "list_all never_sets_lane (drop (Suc i) (arrays s1 a)) \<longrightarrow>
          list_all never_sets_lane (drop (Suc i) (arrays s2 a)) \<and>
          currentUpdateLanePriority s2 = currentUpdateLanePriority s1 \<and>
          trace s2 = trace s1 @
            map (\<lambda>c. Invoked c True (currentUpdateLanePriority s1) (host_priority s1))
              (concat (map callback_chain ran))"
        by (simp_all add: flushed_upto_def Let_def k_def ran_def)
      from i' have ik: "i < k" by (simp add: k_def split: sum.splits)
      from f2 a1 have a2: "arrays s2 a = arrays s1 a @ concat (map chain_enqueues ran)"
        by (simp add: during_flush_def)
      with len1 nth1 have nth2: "arrays s2 a ! i = ?cb" and len2: "i < length (arrays s2 a)"
        by (simp_all add: nth_append)
      have ran': "take (k - i) (drop i (arrays s2 a)) = ?cb # ran"
        using take_drop_step[OF len2 ik] nth2 by (simp add: ran_def)
      have rep: "replicate (i' - i) None = (None :: error option) # replicate (i' - Suc i) None"
        using i' by (metis Suc_diff_Suc Suc_le_lessD replicate_Suc)
      have "during_flush a (concat (map chain_enqueues (?cb # ran))) s s2"
        using during_flush_trans[OF f1 f2] by simp
      moreover have "map observed (trace s2) =
          map observed (trace s) @
          map (\<lambda>c. (c, True, host_priority s)) (concat (map callback_chain (?cb # ran)))"
        using t1 t2 p1 by simp
      moreover have "map chain_throws (?cb # ran) =
          replicate (i' - i) None @ (case res of Inl e \<Rightarrow> [Some e] | Inr u \<Rightarrow> [])"
        using c2 None rep by simp
      moreover have "\<forall>P. (\<forall>cb. P cb \<longrightarrow> list_all P (chain_enqueues cb)) \<longrightarrow>
          list_all P (drop i (arrays s a)) \<longrightarrow> list_all P (drop i (arrays s2 a))"
      proof (intro allI impI)
        fix P
        assume h: "\<forall>cb. P cb \<longrightarrow> list_all P (chain_enqueues cb)"
          and "list_all P (drop i (arrays s a))"
        from cl1[OF this] cl2 h have "P ?cb" "list_all P (drop (Suc i) (arrays s2 a))"
          by simp_all
        moreover have "drop i (arrays s2 a) = ?cb # drop (Suc i) (arrays s2 a)"
          using len2 nth2 by (metis Cons_nth_drop_Suc)
        ultimately show "list_all P (drop i (arrays s2 a))" by simp
      qed
      moreover have "list_all never_sets_lane (drop i (arrays s a)) \<longrightarrow>
          list_all never_sets_lane (drop i (arrays s2 a)) \<and>
          currentUpdateLanePriority s2 = currentUpdateLanePriority s \<and>
          trace s2 = trace s @
            map (\<lambda>c. Invoked c True (currentUpdateLanePriority s) (host_priority s))
              (concat (map callback_chain (?cb # ran)))"
      proof
        assume "list_all never_sets_lane (drop i (arrays s a))"
        from nl[OF this] l2 p1
        have "never_sets_lane ?cb"
          and "list_all never_sets_lane (drop (Suc i) (arrays s2 a))"
          and "currentUpdateLanePriority s2 = currentUpdateLanePriority s"
          and "trace s2 = trace s @
            map (\<lambda>c. Invoked c True (currentUpdateLanePriority s) (host_priority s))
              (concat (map callback_chain (?cb # ran)))"
          by simp_all
        moreover have "drop i (arrays s2 a) = ?cb # drop (Suc i) (arrays s2 a)"
          using len2 nth2 by (metis Cons_nth_drop_Suc)
        ultimately show "list_all never_sets_lane (drop i (arrays s2 a)) \<and>
          currentUpdateLanePriority s2 = currentUpdateLanePriority s \<and>
          trace s2 = trace s @
            map (\<lambda>c. Invoked c True (currentUpdateLanePriority s) (host_priority s))
              (concat (map callback_chain (?cb # ran)))"
          by simp
      qed
      ultimately have "flushed_upto a i s res i' s2"
        using ran' i' k full
        by (simp add: flushed_upto_def Let_def k_def[symmetric])
      moreover from r1 more2 have "\<exists>rest. trace s2 = trace s @
          Invoked ?cb True (currentUpdateLanePriority s) (host_priority s) # rest"
        by auto
      ultimately have "for_loop (Suc ?m) d True a (i, s) = Some (res, i', s2) \<and>
          flushed_upto a i s res i' s2 \<and>
          (\<exists>more. trace s2 = trace s @ more \<and>
             (i < length (arrays s a) \<longrightarrow>
                (\<exists>rest. more =
                   Invoked (arrays s a ! i) True (currentUpdateLanePriority s) (host_priority s)
                     # rest)))"
        using run by auto
      then show ?thesis by fast
    qed
  qed
qed


lemma flushSyncCallbackQueueImpl_idle:
  fixes d :: bool and s :: state
  assumes idle: "\<not> isFlushingSyncQueue s" and queue: "syncQueue s = Some a"
  defines "lane \<equiv> (if d then SyncLanePriority else currentUpdateLanePriority s)"
  defines "s0 \<equiv> s\<lparr>isFlushingSyncQueue := True, currentUpdateLanePriority := lane,
                    host_priority := Scheduler_ImmediatePriority\<rparr>"
  shows "\<exists>n res i' s1.
           flushSyncCallbackQueueImpl n d s =
             Some (res,
               (case res of
                  Inr u \<Rightarrow> s1\<lparr>syncQueue := None\<rparr>
                | Inl e \<Rightarrow> flushSyncCallbackQueueImpl_catch i' s1)
               \<lparr>host_priority := host_priority s,
                 currentUpdateLanePriority :=
                   (if d then currentUpdateLanePriority s else currentUpdateLanePriority s1),
                 isFlushingSyncQueue := False\<rparr>) \<and>
           flushed_upto a 0 s0 res i' s1 \<and>
           (\<exists>more. trace s1 = trace s @ more \<and>
              (arrays s a \<noteq> [] \<longrightarrow>
                 (\<exists>rest. more =
                    Invoked (arrays s a ! 0) True lane Scheduler_ImmediatePriority # rest)))"
proof -
  have "isFlushingSyncQueue s0" "syncQueue s0 = Some a" "0 \<le> length (arrays s0 a)"
    using queue by (simp_all add: s0_def)
  from for_loop_during_flush[OF this, of d] obtain n res i' s1 where
    loop: "for_loop n d True a (0, s0) = Some (res, i', s1)"
    and post: "flushed_upto a 0 s0 res i' s1"
    and first: "\<exists>more. trace s1 = trace s0 @ more \<and>
      (0 < length (arrays s0 a) \<longrightarrow>
         (\<exists>rest. more =
            Invoked (arrays s0 a ! 0) True (currentUpdateLanePriority s0) (host_priority s0)
              # rest))"
    by fast
  have catch: "flushSyncCallbackQueueImpl_catch i' (s1\<lparr>host_priority := p\<rparr>) =
      (flushSyncCallbackQueueImpl_catch i' s1)\<lparr>host_priority := p\<rparr>" for p
    by (simp add: flushSyncCallbackQueueImpl_catch_def Scheduler_scheduleCallback_def
        new_array_def Let_def split: option.splits)
  have catch_lane: "currentUpdateLanePriority (flushSyncCallbackQueueImpl_catch i' s1) =
      currentUpdateLanePriority s1"
    by (simp add: flushSyncCallbackQueueImpl_catch_def Scheduler_scheduleCallback_def
        new_array_def Let_def split: option.splits)
  have "flushSyncCallbackQueueImpl (Suc n) d s =
      Some (res,
        (case res of
           Inr u \<Rightarrow> s1\<lparr>syncQueue := None\<rparr>
         | Inl e \<Rightarrow> flushSyncCallbackQueueImpl_catch i' s1)
        \<lparr>host_priority := host_priority s,
          currentUpdateLanePriority :=
            (if d then currentUpdateLanePriority s else currentUpdateLanePriority s1),
          isFlushingSyncQueue := False\<rparr>)"
  proof (cases d)
    case True
    then have "s\<lparr>isFlushingSyncQueue := True, currentUpdateLanePriority := SyncLanePriority,
                 host_priority := Scheduler_ImmediatePriority\<rparr> = s0"
      by (simp add: s0_def lane_def)
    with loop show ?thesis
      using idle queue True
      by (cases res)
        (simp_all add: runWithPriority_def Scheduler_runWithPriority_def
          reactPriorityToSchedulerPriority_def setCurrentUpdateLanePriority_def
          getCurrentUpdateLanePriority_def catch catch_lane)
  next
    case False
    then have "s\<lparr>isFlushingSyncQueue := True,
                 host_priority := Scheduler_ImmediatePriority\<rparr> = s0"
      by (simp add: s0_def lane_def)
    with loop show ?thesis
      using idle queue False
      by (cases res)
        (simp_all add: runWithPriority_def Scheduler_runWithPriority_def
          reactPriorityToSchedulerPriority_def catch catch_lane)
  qed
  moreover from first have "\<exists>more. trace s1 = trace s @ more \<and>
      (arrays s a \<noteq> [] \<longrightarrow>
         (\<exists>rest. more =
            Invoked (arrays s a ! 0) True lane Scheduler_ImmediatePriority # rest))"
    by (simp add: s0_def)
  ultimately show ?thesis using post by fast
qed

subsection \<open>A whole flush from an idle state\<close>

lemma flush_via_mono:
  "n \<le> m \<Longrightarrow> flush_via x n d s = Some r \<Longrightarrow> flush_via x m d s = Some r"
  by (cases x) (auto simp: flush_via_def
      intro: flushSyncCallbackQueue_mono flushSyncCallbackQueueImpl_mono)

lemma flush_via_unique:
  assumes "flush_via x n d s = Some r" and "flush_via x m d s = Some r'"
  shows "r = r'"
proof -
  have "flush_via x (max n m) d s = Some r"
    by (rule flush_via_mono[OF _ assms(1)]) simp
  moreover have "flush_via x (max n m) d s = Some r'"
    by (rule flush_via_mono[OF _ assms(2)]) simp
  ultimately show ?thesis by simp
qed

lemma catch_fields:
  assumes "syncQueue s1 = Some a"
  shows "syncQueue (flushSyncCallbackQueueImpl_catch i s1) = Some (next_array s1)"
    and "arrays (flushSyncCallbackQueueImpl_catch i s1) (next_array s1) =
           drop (Suc i) (arrays s1 a)"
    and "host_log (flushSyncCallbackQueueImpl_catch i s1) =
           host_log s1 @ [HostScheduleCallback (HostNode (host_next_node s1))
             Scheduler_ImmediatePriority TaskFlushSyncCallbackQueue]"
    and "trace (flushSyncCallbackQueueImpl_catch i s1) = trace s1"
  using assms
  by (simp_all add: flushSyncCallbackQueueImpl_catch_def Scheduler_scheduleCallback_def
      new_array_def Let_def)

lemma flush_summary:
  fixes d :: bool and s :: state
  assumes idle: "\<not> isFlushingSyncQueue s" and queue: "syncQueue s = Some a"
  shows "\<exists>n res s' k final.
           flush_via x n d s = Some (res, s') \<and>
           k \<le> length final \<and>
           final = arrays s a @ concat (map chain_enqueues (take k final)) \<and>
           map observed (trace s') =
             map observed (trace s) @
             map sync_at_immediate (concat (map callback_chain (take k final))) \<and>
           (arrays s a \<noteq> [] \<longrightarrow>
              (\<exists>rest. trace s' = trace s @
                 Invoked (arrays s a ! 0) True
                   (if d then SyncLanePriority else currentUpdateLanePriority s)
                   Scheduler_ImmediatePriority # rest)) \<and>
           (list_all never_sets_lane (arrays s a) \<longrightarrow>
              trace s' = trace s @
                map (\<lambda>c. Invoked c True
                       (if d then SyncLanePriority else currentUpdateLanePriority s)
                       Scheduler_ImmediatePriority)
                  (concat (map callback_chain (take k final)))) \<and>
           (list_all never_throws (arrays s a) \<longrightarrow> res = Inr ()) \<and>
           \<not> isFlushingSyncQueue s' \<and>
           host_priority s' = host_priority s \<and>
           (d \<longrightarrow> currentUpdateLanePriority s' = currentUpdateLanePriority s) \<and>
           (case res of
              Inr u \<Rightarrow>
                k = length final \<and> map chain_throws final = replicate k None \<and>
                syncQueue s' = None \<and>
                (\<exists>evs. host_log s' = host_log s @ evs \<and> list_all is_cancel evs)
            | Inl e \<Rightarrow>
                0 < k \<and>
                map chain_throws (take k final) = replicate (k - 1) None @ [Some e] \<and>
                (\<exists>b. syncQueue s' = Some b \<and> arrays s' b = drop k final) \<and>
                (\<exists>evs node. host_log s' = host_log s @ evs @
                     [HostScheduleCallback node Scheduler_ImmediatePriority
                        TaskFlushSyncCallbackQueue] \<and>
                   list_all is_cancel evs))"
proof -
  define sc where "sc =
    (if x then (case immediateQueueCallbackNode s of
                  None \<Rightarrow> s
                | Some node \<Rightarrow>
                    Scheduler_cancelCallback node (s\<lparr>immediateQueueCallbackNode := None\<rparr>))
     else s)"
  have via: "flush_via x (Suc n) d s = Some r"
    if "flushSyncCallbackQueueImpl n d sc = Some r" for n r
  proof (cases x)
    case True
    with that show ?thesis
      by (simp add: flush_via_def sc_def split: option.splits)
  next
    case False
    with that have "flushSyncCallbackQueueImpl n d s = Some r"
      by (simp add: sc_def)
    from flushSyncCallbackQueueImpl_mono[OF _ this, of "Suc n"] False show ?thesis
      by (simp add: flush_via_def del: flushSyncCallbackQueueImpl.simps)
  qed
  have sc: "\<not> isFlushingSyncQueue sc" "syncQueue sc = Some a" "arrays sc = arrays s"
    "trace sc = trace s" "host_priority sc = host_priority s"
    "currentUpdateLanePriority sc = currentUpdateLanePriority s"
    using idle queue
    by (simp_all add: sc_def Scheduler_cancelCallback_def split: option.splits)
  have sc_log: "\<exists>evs. host_log sc = host_log s @ evs \<and> list_all is_cancel evs"
    by (simp add: sc_def Scheduler_cancelCallback_def split: option.splits)
  define lane where "lane = (if d then SyncLanePriority else currentUpdateLanePriority sc)"
  define s0 where "s0 = sc\<lparr>isFlushingSyncQueue := True, currentUpdateLanePriority := lane,
                    host_priority := Scheduler_ImmediatePriority\<rparr>"
  from flushSyncCallbackQueueImpl_idle[OF sc(1,2), of d] obtain n res i' s1 more where
    run: "flushSyncCallbackQueueImpl n d sc =
             Some (res,
               (case res of
                  Inr u \<Rightarrow> s1\<lparr>syncQueue := None\<rparr>
                | Inl e \<Rightarrow> flushSyncCallbackQueueImpl_catch i' s1)
               \<lparr>host_priority := host_priority sc,
                 currentUpdateLanePriority :=
                   (if d then currentUpdateLanePriority sc else currentUpdateLanePriority s1),
                 isFlushingSyncQueue := False\<rparr>)"
    and post: "flushed_upto a 0 s0 res i' s1"
    and more: "trace s1 = trace sc @ more"
    and first: "arrays sc a \<noteq> [] \<longrightarrow>
                 (\<exists>rest. more =
                    Invoked (arrays sc a ! 0) True lane Scheduler_ImmediatePriority # rest)"
    unfolding s0_def lane_def by fast
  define s' where "s' =
    (case res of
       Inr u \<Rightarrow> s1\<lparr>syncQueue := None\<rparr>
     | Inl e \<Rightarrow> flushSyncCallbackQueueImpl_catch i' s1)
    \<lparr>host_priority := host_priority sc,
      currentUpdateLanePriority :=
        (if d then currentUpdateLanePriority sc else currentUpdateLanePriority s1),
      isFlushingSyncQueue := False\<rparr>"
  define final where "final = arrays s1 a"
  define k where "k = (case res of Inl e \<Rightarrow> Suc i' | Inr u \<Rightarrow> i')"
  have "flushSyncCallbackQueueImpl n d sc = Some (res, s')"
    using run by (simp add: s'_def)
  then have r1: "flush_via x (Suc n) d s = Some (res, s')"
    by (rule via)
  from post have f: "during_flush a (concat (map chain_enqueues (take k final))) s0 s1"
    and r2: "k \<le> length final"
    and full: "case res of Inl e \<Rightarrow> True | Inr u \<Rightarrow> i' = length final"
    and t: "map observed (trace s1) =
      map observed (trace s0) @
      map (\<lambda>c. (c, True, host_priority s0)) (concat (map callback_chain (take k final)))"
    and c: "map chain_throws (take k final) =
      replicate i' None @ (case res of Inl e \<Rightarrow> [Some e] | Inr u \<Rightarrow> [])"
    and cl: "\<forall>P. (\<forall>cb. P cb \<longrightarrow> list_all P (chain_enqueues cb)) \<longrightarrow>
      list_all P (arrays s0 a) \<longrightarrow> list_all P final"
    and nl: "list_all never_sets_lane (arrays s0 a) \<longrightarrow>
      trace s1 = trace s0 @
        map (\<lambda>c. Invoked c True (currentUpdateLanePriority s0) (host_priority s0))
          (concat (map callback_chain (take k final)))"
    unfolding flushed_upto_def Let_def k_def final_def by simp_all
  from f have q1: "syncQueue s1 = Some a"
    and r3: "final = arrays s a @ concat (map chain_enqueues (take k final))"
    and log1: "\<exists>evs. host_log s1 = host_log s0 @ evs \<and> list_all is_cancel evs"
    by (simp_all add: during_flush_def final_def s0_def sc)
  from log1 sc_log have log: "\<exists>evs. host_log s1 = host_log s @ evs \<and> list_all is_cancel evs"
    by (auto simp: s0_def)
  have tr: "trace s' = trace s1"
    using q1 by (cases res) (simp_all add: s'_def catch_fields)
  have "(\<lambda>c. (c, True, host_priority s0)) = sync_at_immediate"
    by (rule ext) (simp add: sync_at_immediate_def s0_def)
  with t tr have r4: "map observed (trace s') =
      map observed (trace s) @
      map sync_at_immediate (concat (map callback_chain (take k final)))"
    by (simp add: s0_def sc)
  from more first tr have r5: "arrays s a \<noteq> [] \<longrightarrow>
      (\<exists>rest. trace s' = trace s @
         Invoked (arrays s a ! 0) True
           (if d then SyncLanePriority else currentUpdateLanePriority s)
           Scheduler_ImmediatePriority # rest)"
    by (auto simp: sc lane_def)
  from nl tr have r5': "list_all never_sets_lane (arrays s a) \<longrightarrow>
      trace s' = trace s @
        map (\<lambda>c. Invoked c True
               (if d then SyncLanePriority else currentUpdateLanePriority s)
               Scheduler_ImmediatePriority)
          (concat (map callback_chain (take k final)))"
    by (simp add: s0_def sc lane_def)
  have r5'': "list_all never_throws (arrays s a) \<longrightarrow> res = Inr ()"
  proof
    assume "list_all never_throws (arrays s a)"
    then have "list_all never_throws (arrays s0 a)" by (simp add: s0_def sc)
    with cl never_throws_chain_enqueues have all: "list_all never_throws final"
      by (elim allE[of _ never_throws]) simp
    show "res = Inr ()"
    proof (cases res)
      case (Inl e)
      with c have "Some e \<in> set (map chain_throws (take k final))" by simp
      then obtain cb where "cb \<in> set (take k final)" and "chain_throws cb = Some e"
        by auto
      moreover from this(1) all have "never_throws cb"
        by (auto simp: list_all_iff dest: in_set_takeD)
      ultimately show ?thesis by (simp add: never_throws_chain_throws)
    next
      case (Inr u)
      then show ?thesis by simp
    qed
  qed
  have r6: "\<not> isFlushingSyncQueue s'" "host_priority s' = host_priority s"
    "d \<longrightarrow> currentUpdateLanePriority s' = currentUpdateLanePriority s"
    by (simp_all add: s'_def sc)
  have r7: "case res of
              Inr u \<Rightarrow>
                k = length final \<and> map chain_throws final = replicate k None \<and>
                syncQueue s' = None \<and>
                (\<exists>evs. host_log s' = host_log s @ evs \<and> list_all is_cancel evs)
            | Inl e \<Rightarrow>
                0 < k \<and>
                map chain_throws (take k final) = replicate (k - 1) None @ [Some e] \<and>
                (\<exists>b. syncQueue s' = Some b \<and> arrays s' b = drop k final) \<and>
                (\<exists>evs node. host_log s' = host_log s @ evs @
                     [HostScheduleCallback node Scheduler_ImmediatePriority
                        TaskFlushSyncCallbackQueue] \<and>
                   list_all is_cancel evs)"
  proof (cases res)
    case (Inr u)
    with full c log show ?thesis
      by (simp add: k_def s'_def)
  next
    case (Inl e)
    from log obtain evs where "host_log s1 = host_log s @ evs" "list_all is_cancel evs"
      by auto
    then have "\<exists>evs node. host_log s' = host_log s @ evs @
                     [HostScheduleCallback node Scheduler_ImmediatePriority
                        TaskFlushSyncCallbackQueue] \<and>
                   list_all is_cancel evs"
      using Inl q1 by (auto simp: s'_def catch_fields)
    moreover have "\<exists>b. syncQueue s' = Some b \<and> arrays s' b = drop k final"
      using Inl q1 by (simp add: s'_def catch_fields k_def final_def)
    ultimately show ?thesis using Inl c
      by (simp add: k_def)
  qed
  from r1 r2 r3 r4 r5 r5' r5'' r6 r7 show ?thesis by fast
qed

subsection \<open>Enqueueing a list\<close>

lemma enqueue_all_present:
  "syncQueue s = Some a \<Longrightarrow>
   enqueue_all cs s = s\<lparr>arrays := (arrays s)(a := arrays s a @ cs)\<rparr>"
proof (induction cs arbitrary: s)
  case Nil
  then show ?case by (simp add: enqueue_all_def)
next
  case (Cons c cs)
  let ?s1 = "s\<lparr>arrays := (arrays s)(a := arrays s a @ [c])\<rparr>"
  have "enqueue_all (c # cs) s = enqueue_all cs ?s1"
    using Cons.prems by (simp add: enqueue_all_def scheduleSyncCallback_def)
  also have "\<dots> = ?s1\<lparr>arrays := (arrays ?s1)(a := arrays ?s1 a @ cs)\<rparr>"
    using Cons.prems by (intro Cons.IH) simp
  finally show ?case by (simp add: fun_upd_def cong: if_cong)
qed

lemma enqueue_all_absent:
  assumes "syncQueue s = None" and "cs \<noteq> []"
  shows "syncQueue (enqueue_all cs s) = Some (next_array s)"
    and "arrays (enqueue_all cs s) (next_array s) = cs"
    and "isFlushingSyncQueue (enqueue_all cs s) = isFlushingSyncQueue s"
    and "trace (enqueue_all cs s) = trace s"
proof -
  from assms(2) obtain c cs' where cs: "cs = c # cs'" by (cases cs) auto
  define s1 where "s1 = snd (scheduleSyncCallback c s)"
  have s1: "syncQueue s1 = Some (next_array s)" "arrays s1 (next_array s) = [c]"
    "isFlushingSyncQueue s1 = isFlushingSyncQueue s" "trace s1 = trace s"
    using assms(1)
    by (simp_all add: s1_def scheduleSyncCallback_def new_array_def
        Scheduler_scheduleCallback_def)
  have "enqueue_all cs s = enqueue_all cs' s1"
    by (simp add: cs enqueue_all_def s1_def)
  then have e: "enqueue_all cs s =
      s1\<lparr>arrays := (arrays s1)(next_array s := arrays s1 (next_array s) @ cs')\<rparr>"
    using enqueue_all_present[OF s1(1)] by simp
  show "syncQueue (enqueue_all cs s) = Some (next_array s)"
    and "arrays (enqueue_all cs s) (next_array s) = cs"
    and "isFlushingSyncQueue (enqueue_all cs s) = isFlushingSyncQueue s"
    and "trace (enqueue_all cs s) = trace s"
    unfolding e using s1 by (simp_all add: cs)
qed

subsection \<open>Callbacks that enqueue nothing\<close>

lemma weight_concat_chain_enqueues:
  "sum_list (map callback_weight (concat (map chain_enqueues xs))) + length xs \<le>
   sum_list (map callback_weight xs)"
proof (induction xs)
  case Nil
  show ?case by simp
next
  case (Cons x xs)
  with weight_chain_enqueues[of x] show ?case by simp
qed

lemma weight_take: "sum_list (map callback_weight (take j xs)) \<le> sum_list (map callback_weight xs)"
proof -
  have "sum_list (map callback_weight xs) =
      sum_list (map callback_weight (take j xs)) + sum_list (map callback_weight (drop j xs))"
    by (metis append_take_drop_id map_append sum_list_append)
  then show ?thesis by simp
qed

lemma enqueues_of_take_empty:
  assumes "added = concat (map chain_enqueues (take j added))"
  shows "added = []"
proof (rule ccontr)
  assume ne: "added \<noteq> []"
  define T where "T = take j added"
  have a: "added = concat (map chain_enqueues T)"
    unfolding T_def by (rule assms)
  have "T \<noteq> []"
  proof
    assume "T = []"
    with a have "added = []" by simp
    with ne show False by simp
  qed
  then have "0 < length T" by simp
  moreover have "sum_list (map callback_weight (concat (map chain_enqueues T))) + length T \<le>
      sum_list (map callback_weight T)"
    by (rule weight_concat_chain_enqueues)
  moreover have "sum_list (map callback_weight T) \<le> sum_list (map callback_weight added)"
    unfolding T_def by (rule weight_take)
  moreover have "sum_list (map callback_weight added) =
      sum_list (map callback_weight (concat (map chain_enqueues T)))"
    using a by (rule arg_cong)
  ultimately show False by linarith
qed

lemma no_enqueues_final:
  assumes "final = cs @ concat (map chain_enqueues (take k final))"
    and "\<forall>c\<in>set cs. chain_enqueues c = []"
  shows "final = cs"
proof -
  define added where "added = concat (map chain_enqueues (take k final))"
  have final: "final = cs @ added"
    unfolding added_def by (rule assms(1))
  have none: "concat (map chain_enqueues (take k cs)) = []"
    using assms(2) by (auto dest: in_set_takeD)
  have tk: "take k final = take k cs @ take (k - length cs) added"
    by (subst final) simp
  have "concat (map chain_enqueues (take k final)) =
      concat (map chain_enqueues (take k cs)) @
      concat (map chain_enqueues (take (k - length cs) added))"
    unfolding tk by simp
  then have "added = [] @ concat (map chain_enqueues (take (k - length cs) added))"
    unfolding none added_def[symmetric] .
  then have "added = concat (map chain_enqueues (take (k - length cs) added))"
    by (simp only: append_Nil)
  then have "added = []" by (rule enqueues_of_take_empty)
  with final show ?thesis by simp
qed

subsection \<open>The first entry that throws\<close>

lemma first_throw:
  assumes m: "map chain_throws (take k final) = replicate (k - 1) None @ [Some e']"
    and k: "0 < k" "k \<le> length final"
    and final: "final = pre @ c # rest"
    and pre: "\<forall>p\<in>set pre. chain_throws p = None"
    and c: "chain_throws c = Some e"
  shows "take k final = pre @ [c] \<and> drop k final = rest \<and> e' = e"
proof -
  let ?P = "\<lambda>x. chain_throws x = None"
  from m k obtain ys z where yz: "take k final = ys @ [z]"
    by (metis length_greater_0_conv list.size(3) map_is_Nil_conv rev_exhaust snoc_eq_iff_butlast
        take_eq_Nil not_less_zero le_zero_eq)
  with m have "map chain_throws ys = replicate (k - 1) None" and z: "chain_throws z = Some e'"
    by simp_all
  then have ys: "\<forall>y\<in>set ys. chain_throws y = None"
    by (metis in_set_conv_nth length_map length_replicate nth_map nth_replicate)
  have f2: "final = ys @ z # drop k final"
    using yz by (metis append_take_drop_id append.assoc append_Cons append_Nil)
  have "takeWhile ?P final = pre"
    unfolding final using pre c by (simp add: takeWhile_append2)
  moreover have "takeWhile ?P final = ys"
    by (subst f2) (use ys z in \<open>simp add: takeWhile_append2\<close>)
  ultimately have "ys = pre" by simp
  with f2 final have "pre @ z # drop k final = pre @ c # rest" by metis
  then have "z = c" "drop k final = rest" by simp_all
  with yz \<open>ys = pre\<close> z c show ?thesis by simp
qed


lemma flush_via_absent:
  assumes "syncQueue s = None"
  shows "\<exists>s'. flush_via x (Suc (Suc n)) d s = Some (Inr (), s') \<and>
           trace s' = trace s \<and> syncQueue s' = None"
  using assms
  by (cases x) (auto simp: flush_via_def Scheduler_cancelCallback_def split: option.splits)

subsection \<open>A flush that raises\<close>

lemma flush_raises_at_first_throw:
  assumes idle: "\<not> isFlushingSyncQueue s" and queue: "syncQueue s = Some a"
    and entries: "arrays s a = pre @ c # post"
    and pre: "\<forall>p\<in>set pre. chain_throws p = None"
    and c: "chain_throws c = Some e"
  shows "\<exists>n s'. flush_via x n d s = Some (Inl e, s') \<and>
           (\<forall>m r. flush_via x m d s = Some r \<longrightarrow> r = (Inl e, s')) \<and>
           (\<exists>b. syncQueue s' = Some b \<and>
                arrays s' b = post @ concat (map chain_enqueues (pre @ [c]))) \<and>
           (\<exists>evs node. host_log s' = host_log s @ evs @
                [HostScheduleCallback node Scheduler_ImmediatePriority
                   TaskFlushSyncCallbackQueue] \<and>
              list_all is_cancel evs) \<and>
           map observed (trace s') =
             map observed (trace s) @
             map sync_at_immediate (concat (map callback_chain (pre @ [c]))) \<and>
           \<not> isFlushingSyncQueue s'"
proof -
  from flush_summary[OF idle queue, of x d] obtain n res s' k final where
    run: "flush_via x n d s = Some (res, s')"
    and k: "k \<le> length final"
    and final: "final = arrays s a @ concat (map chain_enqueues (take k final))"
    and tr: "map observed (trace s') =
             map observed (trace s) @
             map sync_at_immediate (concat (map callback_chain (take k final)))"
    and guard: "\<not> isFlushingSyncQueue s'"
    and res: "case res of
              Inr u \<Rightarrow>
                k = length final \<and> map chain_throws final = replicate k None \<and>
                syncQueue s' = None \<and>
                (\<exists>evs. host_log s' = host_log s @ evs \<and> list_all is_cancel evs)
            | Inl e \<Rightarrow>
                0 < k \<and>
                map chain_throws (take k final) = replicate (k - 1) None @ [Some e] \<and>
                (\<exists>b. syncQueue s' = Some b \<and> arrays s' b = drop k final) \<and>
                (\<exists>evs node. host_log s' = host_log s @ evs @
                     [HostScheduleCallback node Scheduler_ImmediatePriority
                        TaskFlushSyncCallbackQueue] \<and>
                   list_all is_cancel evs)"
    by fast
  define added where "added = concat (map chain_enqueues (take k final))"
  have f: "final = pre @ c # (post @ added)"
    using final entries by (simp add: added_def)
  obtain e' where e': "res = Inl e'"
  proof (cases res)
    case (Inl e')
    then show ?thesis by (rule that)
  next
    case (Inr u)
    with res have "map chain_throws final = replicate k None" by simp
    then have "\<forall>y\<in>set (map chain_throws final). y = None"
      by (metis in_set_replicate)
    moreover have "c \<in> set final" by (subst f) simp
    ultimately have "chain_throws c = None" by simp
    with c show ?thesis by simp
  qed
  with res have k0: "0 < k"
    and m: "map chain_throws (take k final) = replicate (k - 1) None @ [Some e']"
    and q: "\<exists>b. syncQueue s' = Some b \<and> arrays s' b = drop k final"
    and log: "\<exists>evs node. host_log s' = host_log s @ evs @
                     [HostScheduleCallback node Scheduler_ImmediatePriority
                        TaskFlushSyncCallbackQueue] \<and>
                   list_all is_cancel evs"
    by simp_all
  from first_throw[OF m k0 k f pre c] have tk: "take k final = pre @ [c]"
    and dk: "drop k final = post @ added" and e: "e' = e"
    by simp_all
  have a: "added = concat (map chain_enqueues (pre @ [c]))"
    unfolding tk[symmetric] by (rule added_def)
  have r1: "flush_via x n d s = Some (Inl e, s')"
    using run e' e by simp
  have r2: "\<forall>m r. flush_via x m d s = Some r \<longrightarrow> r = (Inl e, s')"
    using flush_via_unique[OF r1] by simp
  have r3: "\<exists>b. syncQueue s' = Some b \<and>
                arrays s' b = post @ concat (map chain_enqueues (pre @ [c]))"
    using q unfolding dk a .
  have r4: "map observed (trace s') =
             map observed (trace s) @
             map sync_at_immediate (concat (map callback_chain (pre @ [c])))"
    using tr unfolding tk .
  show ?thesis
    by (rule exI[of _ n], rule exI[of _ s'], intro conjI) (rule r1 r2 r3 log r4 guard)+
qed

section \<open>Priority translation\<close>

lemmas react_priority_defs =
  ImmediatePriority_def UserBlockingPriority_def NormalPriority_def LowPriority_def
  IdlePriority_def NoPriority_def

lemmas scheduler_priority_defs =
  Scheduler_ImmediatePriority_def Scheduler_UserBlockingPriority_def
  Scheduler_NormalPriority_def Scheduler_LowPriority_def Scheduler_IdlePriority_def

text \<open>
  Claim C3. The two translations are mutually inverse on the five recognized levels: when
  the host's ambient priority is one of the five host values, \<open>getCurrentPriorityLevel\<close>
  returns a level that \<open>reactPriorityToSchedulerPriority\<close> maps back to it; and each of
  the five levels of this layer is mapped by \<open>reactPriorityToSchedulerPriority\<close> to a host
  value that \<open>getCurrentPriorityLevel\<close> maps back to the level.
\<close>

theorem priority_round_trip:
  "(host_priority s \<in> {Scheduler_ImmediatePriority, Scheduler_UserBlockingPriority,
        Scheduler_NormalPriority, Scheduler_LowPriority, Scheduler_IdlePriority} \<longrightarrow>
      (\<exists>y. getCurrentPriorityLevel s = Inr y \<and>
           reactPriorityToSchedulerPriority y = Inr (host_priority s))) \<and>
   (y \<in> {ImmediatePriority, UserBlockingPriority, NormalPriority, LowPriority, IdlePriority} \<longrightarrow>
      (\<exists>x. reactPriorityToSchedulerPriority y = Inr x \<and>
           (\<forall>s'. host_priority s' = x \<longrightarrow> getCurrentPriorityLevel s' = Inr y)))"
  by (auto simp: getCurrentPriorityLevel_def reactPriorityToSchedulerPriority_def
      Scheduler_getCurrentPriorityLevel_def react_priority_defs scheduler_priority_defs)

theorem priority_round_trip_witness:
  "(\<exists>y. getCurrentPriorityLevel (initial_state\<lparr>host_priority := Scheduler_LowPriority\<rparr>) = Inr y \<and>
        reactPriorityToSchedulerPriority y = Inr Scheduler_LowPriority) \<and>
   (\<exists>x. reactPriorityToSchedulerPriority UserBlockingPriority = Inr x \<and>
        (\<forall>s'. host_priority s' = x \<longrightarrow> getCurrentPriorityLevel s' = Inr UserBlockingPriority))"
  using priority_round_trip
    [of "initial_state\<lparr>host_priority := Scheduler_LowPriority\<rparr>" UserBlockingPriority]
  by simp

text \<open>
  Claim C8. An unrecognized priority fails loudly in both directions:
  \<open>getCurrentPriorityLevel\<close> raises the invariant failure ``Unknown priority level.'' when
  the host's ambient priority is none of the five host values, and
  \<open>reactPriorityToSchedulerPriority\<close> raises it for every input that is none of the five
  levels, \<open>NoPriority\<close> included.
\<close>

theorem unknown_priority_fails:
  "(host_priority s \<notin> {Scheduler_ImmediatePriority, Scheduler_UserBlockingPriority,
        Scheduler_NormalPriority, Scheduler_LowPriority, Scheduler_IdlePriority} \<longrightarrow>
      getCurrentPriorityLevel s = Inl (InvariantViolation ''Unknown priority level.'')) \<and>
   (y \<notin> {ImmediatePriority, UserBlockingPriority, NormalPriority, LowPriority, IdlePriority} \<longrightarrow>
      reactPriorityToSchedulerPriority y = Inl (InvariantViolation ''Unknown priority level.'')) \<and>
   reactPriorityToSchedulerPriority NoPriority =
      Inl (InvariantViolation ''Unknown priority level.'')"
  by (auto simp: getCurrentPriorityLevel_def reactPriorityToSchedulerPriority_def
      Scheduler_getCurrentPriorityLevel_def react_priority_defs scheduler_priority_defs)

theorem unknown_priority_fails_witness:
  "getCurrentPriorityLevel (initial_state\<lparr>host_priority := 0\<rparr>) =
     Inl (InvariantViolation ''Unknown priority level.'') \<and>
   reactPriorityToSchedulerPriority 3 = Inl (InvariantViolation ''Unknown priority level.'') \<and>
   reactPriorityToSchedulerPriority NoPriority =
     Inl (InvariantViolation ''Unknown priority level.'')"
  using unknown_priority_fails [of "initial_state\<lparr>host_priority := 0\<rparr>" 3]
  by (simp add: react_priority_defs scheduler_priority_defs)

section \<open>The clock\<close>

text \<open>
  Claim C9. \<open>now\<close> is normalized against the host clock value read when the module is
  loaded: when that value is large (at least 10000), every call returns the current host
  clock value minus the initial one; otherwise it returns the host clock value unchanged.
\<close>

theorem now_normalized:
  "(10000 \<le> initialTimeMs \<longrightarrow> now initialTimeMs t = t - initialTimeMs) \<and>
   (initialTimeMs < 10000 \<longrightarrow> now initialTimeMs t = t)"
  by (simp add: now_def)

theorem now_normalized_witness:
  "now 1600000000000 1600000000250 = 250 \<and> now 12 512 = 512"
  using now_normalized [of 1600000000000 1600000000250] now_normalized [of 12 512]
  by simp

section \<open>Enqueueing and cancelling\<close>

text \<open>
  Claim C6. \<open>scheduleSyncCallback\<close> appends its callback to the pending queue. When the
  queue was absent it creates the queue holding only that callback, places exactly one
  registration of \<^verbatim>\<open>flushSyncCallbackQueueImpl\<close> at the host's immediate priority and keeps
  the handle; when the queue exists it appends and the state is otherwise unchanged, so no
  registration is placed. It always returns the sentinel handle, and \<open>cancelCallback\<close> on
  that handle changes nothing: the host's cancel is not called.
\<close>

theorem scheduleSyncCallback_enqueues:
  "(syncQueue s = None \<longrightarrow>
      (\<exists>s'. scheduleSyncCallback callback s = (fakeCallbackNode, s') \<and>
         syncQueue s' = Some (next_array s) \<and>
         arrays s' (next_array s) = [callback] \<and>
         immediateQueueCallbackNode s' = Some (HostNode (host_next_node s)) \<and>
         host_log s' = host_log s @
           [HostScheduleCallback (HostNode (host_next_node s)) Scheduler_ImmediatePriority
              TaskFlushSyncCallbackQueueImpl])) \<and>
   (syncQueue s = Some a \<longrightarrow>
      scheduleSyncCallback callback s =
        (fakeCallbackNode, s\<lparr>arrays := (arrays s)(a := arrays s a @ [callback])\<rparr>)) \<and>
   cancelCallback (fst (scheduleSyncCallback callback s)) s2 = s2"
  by (auto simp: scheduleSyncCallback_def new_array_def Scheduler_scheduleCallback_def
      cancelCallback_def split: option.splits)

theorem scheduleSyncCallback_enqueues_witness:
  "(\<exists>s'. scheduleSyncCallback (Callback 1 [] ReturnNull) initial_state = (fakeCallbackNode, s') \<and>
      syncQueue s' = Some 0 \<and> arrays s' 0 = [Callback 1 [] ReturnNull] \<and>
      immediateQueueCallbackNode s' = Some (HostNode 0) \<and>
      host_log s' =
        [HostScheduleCallback (HostNode 0) Scheduler_ImmediatePriority
           TaskFlushSyncCallbackQueueImpl]) \<and>
   scheduleSyncCallback (Callback 2 [] ReturnNull)
       (initial_state\<lparr>syncQueue := Some 0, arrays := (\<lambda>a. [Callback 1 [] ReturnNull])\<rparr>) =
     (fakeCallbackNode,
      initial_state\<lparr>syncQueue := Some 0,
        arrays := (\<lambda>a. [Callback 1 [] ReturnNull])
                    (0 := [Callback 1 [] ReturnNull, Callback 2 [] ReturnNull])\<rparr>)"
  using scheduleSyncCallback_enqueues [of initial_state "Callback 1 [] ReturnNull" 0]
    scheduleSyncCallback_enqueues
      [of "initial_state\<lparr>syncQueue := Some 0, arrays := (\<lambda>a. [Callback 1 [] ReturnNull])\<rparr>"
          "Callback 2 [] ReturnNull" 0]
  by (simp add: initial_state_def)

section \<open>The explicit flush and the guard\<close>

text \<open>
  Claim C7. When a handle of a pending host registration is stored,
  \<open>flushSyncCallbackQueue\<close> clears the stored handle and cancels that registration with
  the host, and then runs \<open>flushSyncCallbackQueueImpl\<close> on the resulting state; when no
  handle is stored it runs \<open>flushSyncCallbackQueueImpl\<close> directly. In both cases the drain
  routine is invoked in the same call.
\<close>

theorem flushSyncCallbackQueue_cancels_then_drains:
  "(immediateQueueCallbackNode s = Some node \<longrightarrow>
      flushSyncCallbackQueue (Suc n) decouple s =
        flushSyncCallbackQueueImpl n decouple
          (s\<lparr>immediateQueueCallbackNode := None,
             host_log := host_log s @ [HostCancelCallback node]\<rparr>)) \<and>
   (immediateQueueCallbackNode s = None \<longrightarrow>
      flushSyncCallbackQueue (Suc n) decouple s = flushSyncCallbackQueueImpl n decouple s)"
  by (simp add: Scheduler_cancelCallback_def)

theorem flushSyncCallbackQueue_cancels_then_drains_witness:
  "flushSyncCallbackQueue (Suc 1) False
     (initial_state\<lparr>immediateQueueCallbackNode := Some (HostNode 7)\<rparr>) =
   flushSyncCallbackQueueImpl 1 False
     (initial_state\<lparr>immediateQueueCallbackNode := None,
        host_log := [HostCancelCallback (HostNode 7)]\<rparr>)"
  using flushSyncCallbackQueue_cancels_then_drains
    [of "initial_state\<lparr>immediateQueueCallbackNode := Some (HostNode 7)\<rparr>" "HostNode 7" 1 False]
  by (simp add: initial_state_def)

text \<open>
  Claim C4. A call of \<open>flushSyncCallbackQueueImpl\<close> made while a flush is in progress (the
  guard \<open>isFlushingSyncQueue\<close> is set) returns at once and leaves the whole state as it
  was: no queued callback is invoked and the flush logic is not entered again. The same
  holds for the call through \<open>flushSyncCallbackQueue\<close>: it invokes no callback and
  leaves the guard, the queue and its array as they were.
\<close>

theorem flush_while_flushing_is_noop:
  "isFlushingSyncQueue s \<Longrightarrow>
     flushSyncCallbackQueueImpl (Suc n) decouple s = Some (Inr (), s) \<and>
     (\<exists>s'. flushSyncCallbackQueue (Suc (Suc n)) decouple s = Some (Inr (), s') \<and>
        trace s' = trace s \<and> isFlushingSyncQueue s' \<and> syncQueue s' = syncQueue s \<and>
        arrays s' = arrays s)"
  by (simp add: Scheduler_cancelCallback_def split: option.splits)

theorem flush_while_flushing_is_noop_witness:
  "flushSyncCallbackQueueImpl (Suc 0) True
     (initial_state\<lparr>syncQueue := Some 0, isFlushingSyncQueue := True,
        arrays := (\<lambda>a. [Callback 1 [] ReturnNull])\<rparr>) =
   Some (Inr (),
     initial_state\<lparr>syncQueue := Some 0, isFlushingSyncQueue := True,
        arrays := (\<lambda>a. [Callback 1 [] ReturnNull])\<rparr>) \<and>
   (\<exists>s'. flushSyncCallbackQueue (Suc (Suc 0)) True
       (initial_state\<lparr>syncQueue := Some 0, isFlushingSyncQueue := True,
          arrays := (\<lambda>a. [Callback 1 [] ReturnNull])\<rparr>) = Some (Inr (), s') \<and>
      trace s' = [])"
  using flush_while_flushing_is_noop
    [of "initial_state\<lparr>syncQueue := Some 0, isFlushingSyncQueue := True,
        arrays := (\<lambda>a. [Callback 1 [] ReturnNull])\<rparr>" 0 True]
  by (simp add: initial_state_def)

section \<open>Flushing the queue\<close>

text \<open>
  Claim C1. Callbacks \<open>cs\<close> are enqueued by \<open>scheduleSyncCallback\<close>, one after the
  other, starting with no queue and no flush in progress; then a flush runs, automatic or
  explicit. The flush always returns. When it returns normally, the queue is \<open>null\<close> and
  the invocation log has grown by exactly the chains of the queued callbacks, in enqueue
  order, each chain in one piece (a callback, then the continuation it returned, up to
  the one that returns \<open>null\<close>), every invocation with \<open>isSync = true\<close> and at the
  host's immediate priority. The queued callbacks are \<open>cs\<close> followed by the callbacks
  \<open>added\<close> that running callbacks enqueued during the flush; when no callback of
  \<open>cs\<close> enqueues, there are none, and the log has grown by one run of each chain of
  \<open>cs\<close>. The flush returns normally when no script throws.
\<close>

theorem flush_runs_every_chain_in_order:
  assumes absent: "syncQueue s = None" and idle: "\<not> isFlushingSyncQueue s"
  shows "(\<exists>n r s'. flush_via x n d (enqueue_all cs s) = Some (r, s')) \<and>
         (\<forall>n s'. flush_via x n d (enqueue_all cs s) = Some (Inr (), s') \<longrightarrow>
            syncQueue s' = None \<and>
            (\<exists>added. added = concat (map chain_enqueues (cs @ added)) \<and>
               ((\<forall>c\<in>set cs. chain_enqueues c = []) \<longrightarrow> added = []) \<and>
               map observed (trace s') =
                 map observed (trace s) @
                 map sync_at_immediate (concat (map callback_chain (cs @ added))))) \<and>
         (list_all never_throws cs \<longrightarrow>
            (\<exists>n s'. flush_via x n d (enqueue_all cs s) = Some (Inr (), s')))"
proof (cases "cs = []")
  case True
  from flush_via_absent[OF absent, of x 0 d] obtain s' where
    run: "flush_via x (Suc (Suc 0)) d s = Some (Inr (), s')"
    and s': "trace s' = trace s" "syncQueue s' = None"
    by auto
  have post: "syncQueue s'' = None \<and> trace s'' = trace s"
    if "flush_via x n d s = Some (Inr (), s'')" for n s''
    using flush_via_unique[OF run that] s' by simp
  have p2: "\<forall>n s'. flush_via x n d s = Some (Inr (), s') \<longrightarrow>
            syncQueue s' = None \<and>
            (\<exists>added. added = concat (map chain_enqueues ([] @ added)) \<and>
               ((\<forall>c\<in>set []. chain_enqueues c = []) \<longrightarrow> added = []) \<and>
               map observed (trace s') =
                 map observed (trace s) @
                 map sync_at_immediate (concat (map callback_chain ([] @ added))))"
  proof (intro allI impI conjI)
    fix n s''
    assume a: "flush_via x n d s = Some (Inr (), s'')"
    from post[OF a] show "syncQueue s'' = None" by simp
    from post[OF a] have "trace s'' = trace s" by simp
    then show "\<exists>added. added = concat (map chain_enqueues ([] @ added)) \<and>
               ((\<forall>c\<in>set []. chain_enqueues c = []) \<longrightarrow> added = []) \<and>
               map observed (trace s'') =
                 map observed (trace s) @
                 map sync_at_immediate (concat (map callback_chain ([] @ added)))"
      by (intro exI[of _ "[]"]) simp
  qed
  have p1: "\<exists>n r s'. flush_via x n d s = Some (r, s')"
    using run by fast
  have p3: "list_all never_throws [] \<longrightarrow>
      (\<exists>n s'. flush_via x n d s = Some (Inr (), s'))"
    using run by fast
  have e: "enqueue_all [] s = s" by (simp add: enqueue_all_def)
  show ?thesis
    unfolding True e using p1 p2 p3 by (intro conjI)
next
  case False
  define s1 where "s1 = enqueue_all cs s"
  define a where "a = next_array s"
  have s1: "syncQueue s1 = Some a" "arrays s1 a = cs" "\<not> isFlushingSyncQueue s1"
    "trace s1 = trace s"
    using enqueue_all_absent[OF absent False] idle by (simp_all add: s1_def a_def)
  from flush_summary[OF s1(3) s1(1), of x d] obtain n res s' k final where
    run: "flush_via x n d s1 = Some (res, s')"
    and k: "k \<le> length final"
    and final: "final = cs @ concat (map chain_enqueues (take k final))"
    and tr: "map observed (trace s') =
             map observed (trace s) @
             map sync_at_immediate (concat (map callback_chain (take k final)))"
    and nt: "list_all never_throws cs \<longrightarrow> res = Inr ()"
    and res: "case res of
              Inr u \<Rightarrow>
                k = length final \<and> map chain_throws final = replicate k None \<and>
                syncQueue s' = None \<and>
                (\<exists>evs. host_log s' = host_log s1 @ evs \<and> list_all is_cancel evs)
            | Inl e \<Rightarrow>
                0 < k \<and>
                map chain_throws (take k final) = replicate (k - 1) None @ [Some e] \<and>
                (\<exists>b. syncQueue s' = Some b \<and> arrays s' b = drop k final) \<and>
                (\<exists>evs node. host_log s' = host_log s1 @ evs @
                     [HostScheduleCallback node Scheduler_ImmediatePriority
                        TaskFlushSyncCallbackQueue] \<and>
                   list_all is_cancel evs)"
    unfolding s1 by fast
  have part1: "\<exists>n r s'. flush_via x n d s1 = Some (r, s')"
    using run by fast
  have part2: "\<forall>m s''. flush_via x m d s1 = Some (Inr (), s'') \<longrightarrow>
            syncQueue s'' = None \<and>
            (\<exists>added. added = concat (map chain_enqueues (cs @ added)) \<and>
               ((\<forall>c\<in>set cs. chain_enqueues c = []) \<longrightarrow> added = []) \<and>
               map observed (trace s'') =
                 map observed (trace s) @
                 map sync_at_immediate (concat (map callback_chain (cs @ added))))"
  proof (intro allI impI)
    fix m s''
    assume that: "flush_via x m d s1 = Some (Inr (), s'')"
    from flush_via_unique[OF run that] have r: "res = Inr ()" and s'': "s'' = s'"
      by simp_all
    from res r have full: "k = length final" and q: "syncQueue s' = None"
      by simp_all
    define added where "added = concat (map chain_enqueues final)"
    from final full have f: "final = cs @ added"
      by (simp add: added_def)
    have "added = concat (map chain_enqueues (cs @ added))"
      unfolding f[symmetric] by (rule added_def)
    moreover have "(\<forall>c\<in>set cs. chain_enqueues c = []) \<longrightarrow> added = []"
    proof
      assume "\<forall>c\<in>set cs. chain_enqueues c = []"
      with final have "final = cs" by (rule no_enqueues_final)
      with f show "added = []" by simp
    qed
    moreover from tr full have "map observed (trace s') =
        map observed (trace s) @
        map sync_at_immediate (concat (map callback_chain (cs @ added)))"
      unfolding f[symmetric] by simp
    ultimately have "\<exists>added. added = concat (map chain_enqueues (cs @ added)) \<and>
               ((\<forall>c\<in>set cs. chain_enqueues c = []) \<longrightarrow> added = []) \<and>
               map observed (trace s') =
                 map observed (trace s) @
                 map sync_at_immediate (concat (map callback_chain (cs @ added)))"
      by (intro exI[of _ added] conjI)
    with q show "syncQueue s'' = None \<and>
            (\<exists>added. added = concat (map chain_enqueues (cs @ added)) \<and>
               ((\<forall>c\<in>set cs. chain_enqueues c = []) \<longrightarrow> added = []) \<and>
               map observed (trace s'') =
                 map observed (trace s) @
                 map sync_at_immediate (concat (map callback_chain (cs @ added))))"
      unfolding s'' by (intro conjI)
  qed
  have part3: "list_all never_throws cs \<longrightarrow>
            (\<exists>n s'. flush_via x n d s1 = Some (Inr (), s'))"
  proof
    assume "list_all never_throws cs"
    with nt have "res = Inr ()" by simp
    with run show "\<exists>n s'. flush_via x n d s1 = Some (Inr (), s')"
      by (intro exI[of _ n] exI[of _ s']) simp
  qed
  show ?thesis
    unfolding s1_def[symmetric] using part1 part2 part3 by (intro conjI)
qed

theorem flush_runs_every_chain_in_order_witness:
  "\<exists>n s'. flush_via True n False
       (enqueue_all [Callback 1 [] (ReturnCallback (Callback 2 [] ReturnNull)),
                     Callback 3 [] ReturnNull] initial_state) = Some (Inr (), s') \<and>
     syncQueue s' = None \<and>
     map observed (trace s') =
       [(Callback 1 [] (ReturnCallback (Callback 2 [] ReturnNull)), True,
           Scheduler_ImmediatePriority),
        (Callback 2 [] ReturnNull, True, Scheduler_ImmediatePriority),
        (Callback 3 [] ReturnNull, True, Scheduler_ImmediatePriority)]"
proof -
  let ?cs = "[Callback 1 [] (ReturnCallback (Callback 2 [] ReturnNull)),
              Callback 3 [] ReturnNull]"
  have absent: "syncQueue initial_state = None" and idle: "\<not> isFlushingSyncQueue initial_state"
    by (simp_all add: initial_state_def)
  note t = flush_runs_every_chain_in_order[OF absent idle, of True False ?cs]
  have "list_all never_throws ?cs" by simp
  with t obtain n s' where
    run: "flush_via True n False (enqueue_all ?cs initial_state) = Some (Inr (), s')"
    by (elim conjE impE exE)
  from t[THEN conjunct2, THEN conjunct1, rule_format, OF run]
  obtain added where q: "syncQueue s' = None"
    and none: "(\<forall>c\<in>set ?cs. chain_enqueues c = []) \<longrightarrow> added = []"
    and tr: "map observed (trace s') =
      map observed (trace initial_state) @
      map sync_at_immediate (concat (map callback_chain (?cs @ added)))"
    by (elim conjE exE)
  from none have "added = []" by simp
  with tr have "map observed (trace s') =
       [(Callback 1 [] (ReturnCallback (Callback 2 [] ReturnNull)), True,
           Scheduler_ImmediatePriority),
        (Callback 2 [] ReturnNull, True, Scheduler_ImmediatePriority),
        (Callback 3 [] ReturnNull, True, Scheduler_ImmediatePriority)]"
    by (simp add: initial_state_def sync_at_immediate_def)
  with run q show ?thesis
    by (intro exI[of _ n] exI[of _ s'] conjI)
qed

text \<open>
  Claim C2, as the code has it. A flush starts with the entries \<open>pre @ c # post\<close> in the
  queue, where no chain of \<open>pre\<close> throws and the chain of \<open>c\<close> (at position
  \<open>k = length pre\<close>) throws \<open>e\<close>. Then the flush raises \<open>e\<close> to its caller, whatever
  the depth bound; afterwards the queue is a new array holding exactly the entries after
  position \<open>k\<close> of the live array as it is when the error is raised: \<open>post\<close>, that is
  the positions \<open>k+1..n-1\<close> of the queue the flush started with, followed by the callbacks
  that the entries up to \<open>k\<close> enqueued during this flush (nothing, when they enqueue
  nothing). The entries up to \<open>k\<close> are gone, the failing one included; the host has
  received one new registration of \<^verbatim>\<open>flushSyncCallbackQueue\<close> at its immediate priority,
  as its last request; the chains of \<open>pre\<close> and of \<open>c\<close> are all that ran; and the guard
  is cleared.
\<close>

theorem failing_callback_recovery:
  assumes idle: "\<not> isFlushingSyncQueue s" and queue: "syncQueue s = Some a"
    and entries: "arrays s a = pre @ c # post"
    and pre: "\<forall>p\<in>set pre. chain_throws p = None"
    and c: "chain_throws c = Some e"
  shows "\<exists>n s'. flush_via x n d s = Some (Inl e, s') \<and>
           (\<forall>m r. flush_via x m d s = Some r \<longrightarrow> r = (Inl e, s')) \<and>
           (\<exists>b. syncQueue s' = Some b \<and>
                arrays s' b = post @ concat (map chain_enqueues (pre @ [c]))) \<and>
           (\<exists>evs node. host_log s' = host_log s @ evs @
                [HostScheduleCallback node Scheduler_ImmediatePriority
                   TaskFlushSyncCallbackQueue] \<and>
              list_all is_cancel evs) \<and>
           map observed (trace s') =
             map observed (trace s) @
             map sync_at_immediate (concat (map callback_chain (pre @ [c]))) \<and>
           \<not> isFlushingSyncQueue s'"
  using idle queue entries pre c by (rule flush_raises_at_first_throw)

theorem failing_callback_recovery_witness:
  "\<exists>n s'. flush_via False n True
       (initial_state\<lparr>syncQueue := Some 0,
          arrays := (\<lambda>a. [Callback 1 [] ReturnNull,
                          Callback 2 [] (Throw (CallbackError 7)),
                          Callback 3 [] ReturnNull])\<rparr>) = Some (Inl (CallbackError 7), s') \<and>
     (\<exists>b. syncQueue s' = Some b \<and> arrays s' b = [Callback 3 [] ReturnNull]) \<and>
     (\<exists>evs node. host_log s' = evs @
          [HostScheduleCallback node Scheduler_ImmediatePriority TaskFlushSyncCallbackQueue] \<and>
        list_all is_cancel evs) \<and>
     map observed (trace s') =
       [(Callback 1 [] ReturnNull, True, Scheduler_ImmediatePriority),
        (Callback 2 [] (Throw (CallbackError 7)), True, Scheduler_ImmediatePriority)] \<and>
     \<not> isFlushingSyncQueue s'"
  using failing_callback_recovery
    [of "initial_state\<lparr>syncQueue := Some 0,
          arrays := (\<lambda>a. [Callback 1 [] ReturnNull,
                          Callback 2 [] (Throw (CallbackError 7)),
                          Callback 3 [] ReturnNull])\<rparr>"
        0 "[Callback 1 [] ReturnNull]" "Callback 2 [] (Throw (CallbackError 7))"
        "[Callback 3 [] ReturnNull]" "CallbackError 7" False True]
  by (simp add: initial_state_def sync_at_immediate_def) (elim exE conjE, intro exI conjI, assumption+)

text \<open>
  The queue after recovery is not always the positions \<open>k+1..n-1\<close> of the queue the flush
  started with: here the first of three entries enqueues a fourth callback and the second
  throws, and the queue afterwards holds the third entry and the fourth callback.
\<close>

theorem failing_callback_recovery_counterexample:
  "\<exists>s' b. flush_via False (Suc (Suc (Suc (Suc (Suc (Suc (Suc (Suc 0)))))))) False
       (initial_state\<lparr>syncQueue := Some 0,
          arrays := (\<lambda>a. [Callback 1 [CallScheduleSyncCallback (Callback 4 [] ReturnNull)]
                            ReturnNull,
                          Callback 2 [] (Throw (CallbackError 7)),
                          Callback 3 [] ReturnNull])\<rparr>) = Some (Inl (CallbackError 7), s') \<and>
     syncQueue s' = Some b \<and>
     arrays s' b = [Callback 3 [] ReturnNull, Callback 4 [] ReturnNull] \<and>
     arrays s' b \<noteq>
       drop 2 [Callback 1 [CallScheduleSyncCallback (Callback 4 [] ReturnNull)] ReturnNull,
               Callback 2 [] (Throw (CallbackError 7)),
               Callback 3 [] ReturnNull]"
  by (simp add: flush_via_def initial_state_def runWithPriority_def
      Scheduler_runWithPriority_def reactPriorityToSchedulerPriority_def
      scheduleSyncCallback_def flushSyncCallbackQueueImpl_catch_def new_array_def
      Scheduler_scheduleCallback_def)

text \<open>
  Claim C5. With the flag \<^verbatim>\<open>decoupleUpdatePriorityFromScheduler\<close> set, a flush of a present
  queue always returns, and however it returns (normally or by raising a callback's
  error) the current update lane priority is afterwards the one from before the flush
  and the guard is cleared, also when callbacks changed the lane priority. The first
  callback of the flush is invoked with the lane priority forced to \<open>SyncLanePriority\<close>,
  and when no queued callback ever sets the lane priority itself, every invocation of the
  flush sees \<open>SyncLanePriority\<close>.
\<close>

theorem lane_priority_saved_and_restored:
  assumes idle: "\<not> isFlushingSyncQueue s" and queue: "syncQueue s = Some a"
  shows "(\<exists>n r s'. flush_via x n True s = Some (r, s')) \<and>
         (\<forall>n r s'. flush_via x n True s = Some (r, s') \<longrightarrow>
            currentUpdateLanePriority s' = currentUpdateLanePriority s \<and>
            \<not> isFlushingSyncQueue s' \<and>
            (arrays s a \<noteq> [] \<longrightarrow>
               (\<exists>rest. trace s' = trace s @
                  Invoked (arrays s a ! 0) True SyncLanePriority Scheduler_ImmediatePriority
                    # rest)) \<and>
            (list_all never_sets_lane (arrays s a) \<longrightarrow>
               (\<exists>ran. trace s' = trace s @
                  map (\<lambda>c. Invoked c True SyncLanePriority Scheduler_ImmediatePriority)
                    ran)))"
proof -
  from flush_summary[OF idle queue, of x True] obtain n res s' where
    run: "flush_via x n True s = Some (res, s')"
    and first: "arrays s a \<noteq> [] \<longrightarrow>
              (\<exists>rest. trace s' = trace s @
                 Invoked (arrays s a ! 0) True SyncLanePriority
                   Scheduler_ImmediatePriority # rest)"
    and guard: "\<not> isFlushingSyncQueue s'"
    and lane: "currentUpdateLanePriority s' = currentUpdateLanePriority s"
    and all: "list_all never_sets_lane (arrays s a) \<longrightarrow>
               (\<exists>ran. trace s' = trace s @
                  map (\<lambda>c. Invoked c True SyncLanePriority Scheduler_ImmediatePriority)
                    ran)"
    by auto
  have "\<forall>m r s''. flush_via x m True s = Some (r, s'') \<longrightarrow>
            currentUpdateLanePriority s'' = currentUpdateLanePriority s \<and>
            \<not> isFlushingSyncQueue s'' \<and>
            (arrays s a \<noteq> [] \<longrightarrow>
               (\<exists>rest. trace s'' = trace s @
                  Invoked (arrays s a ! 0) True SyncLanePriority Scheduler_ImmediatePriority
                    # rest)) \<and>
            (list_all never_sets_lane (arrays s a) \<longrightarrow>
               (\<exists>ran. trace s'' = trace s @
                  map (\<lambda>c. Invoked c True SyncLanePriority Scheduler_ImmediatePriority)
                    ran))"
  proof (intro allI impI)
    fix m r s''
    assume "flush_via x m True s = Some (r, s'')"
    from flush_via_unique[OF run this] have "s'' = s'" by simp
    with first guard lane all
    show "currentUpdateLanePriority s'' = currentUpdateLanePriority s \<and>
            \<not> isFlushingSyncQueue s'' \<and>
            (arrays s a \<noteq> [] \<longrightarrow>
               (\<exists>rest. trace s'' = trace s @
                  Invoked (arrays s a ! 0) True SyncLanePriority Scheduler_ImmediatePriority
                    # rest)) \<and>
            (list_all never_sets_lane (arrays s a) \<longrightarrow>
               (\<exists>ran. trace s'' = trace s @
                  map (\<lambda>c. Invoked c True SyncLanePriority Scheduler_ImmediatePriority)
                    ran))"
      by simp
  qed
  moreover have "\<exists>n r s'. flush_via x n True s = Some (r, s')"
    using run by fast
  ultimately show ?thesis by (intro conjI)
qed

theorem lane_priority_saved_and_restored_witness:
  "(\<exists>n r s'. flush_via True n True
       (initial_state\<lparr>syncQueue := Some 0,
          arrays := (\<lambda>a. [Callback 1
             [CallSetCurrentUpdateLanePriority (OtherLanePriority 9)]
             (Throw (CallbackError 7))])\<rparr>) = Some (r, s') \<and>
     currentUpdateLanePriority s' = OtherLanePriority 0 \<and>
     \<not> isFlushingSyncQueue s' \<and>
     (\<exists>rest. trace s' =
        Invoked (Callback 1 [CallSetCurrentUpdateLanePriority (OtherLanePriority 9)]
                   (Throw (CallbackError 7)))
          True SyncLanePriority Scheduler_ImmediatePriority # rest)) \<and>
   (\<exists>n r s' ran. flush_via False n True
       (initial_state\<lparr>syncQueue := Some 0,
          arrays := (\<lambda>a. [Callback 1 [] (ReturnCallback (Callback 2 [] ReturnNull)),
                          Callback 3 [] ReturnNull])\<rparr>) = Some (r, s') \<and>
     currentUpdateLanePriority s' = OtherLanePriority 0 \<and>
     trace s' = map (\<lambda>c. Invoked c True SyncLanePriority Scheduler_ImmediatePriority) ran)"
proof -
  let ?S = "initial_state\<lparr>syncQueue := Some 0,
          arrays := (\<lambda>a. [Callback 1
             [CallSetCurrentUpdateLanePriority (OtherLanePriority 9)]
             (Throw (CallbackError 7))])\<rparr>"
  have idle: "\<not> isFlushingSyncQueue ?S" and queue: "syncQueue ?S = Some 0"
    by (simp_all add: initial_state_def)
  note t = lane_priority_saved_and_restored[OF idle queue, of True]
  from t obtain n r s' where run: "flush_via True n True ?S = Some (r, s')"
    by (elim conjE exE)
  from t[THEN conjunct2, rule_format, OF run]
  have "currentUpdateLanePriority s' = OtherLanePriority 0 \<and>
     \<not> isFlushingSyncQueue s' \<and>
     (\<exists>rest. trace s' =
        Invoked (Callback 1 [CallSetCurrentUpdateLanePriority (OtherLanePriority 9)]
                   (Throw (CallbackError 7)))
          True SyncLanePriority Scheduler_ImmediatePriority # rest)"
    by (simp add: initial_state_def)
  with run have first: "\<exists>n r s'. flush_via True n True ?S = Some (r, s') \<and>
     currentUpdateLanePriority s' = OtherLanePriority 0 \<and>
     \<not> isFlushingSyncQueue s' \<and>
     (\<exists>rest. trace s' =
        Invoked (Callback 1 [CallSetCurrentUpdateLanePriority (OtherLanePriority 9)]
                   (Throw (CallbackError 7)))
          True SyncLanePriority Scheduler_ImmediatePriority # rest)"
    by (intro exI[of _ n] exI[of _ r] exI[of _ s'] conjI) simp_all
  let ?Q = "initial_state\<lparr>syncQueue := Some 0,
          arrays := (\<lambda>a. [Callback 1 [] (ReturnCallback (Callback 2 [] ReturnNull)),
                          Callback 3 [] ReturnNull])\<rparr>"
  have idle2: "\<not> isFlushingSyncQueue ?Q" and queue2: "syncQueue ?Q = Some 0"
    by (simp_all add: initial_state_def)
  note u = lane_priority_saved_and_restored[OF idle2 queue2, of False]
  from u obtain m r2 s2 where run2: "flush_via False m True ?Q = Some (r2, s2)"
    by (elim conjE exE)
  from u[THEN conjunct2, rule_format, OF run2]
  have "currentUpdateLanePriority s2 = OtherLanePriority 0" and
    "\<exists>ran. trace s2 =
       map (\<lambda>c. Invoked c True SyncLanePriority Scheduler_ImmediatePriority) ran"
    by (simp_all add: initial_state_def)
  then obtain ran where "currentUpdateLanePriority s2 = OtherLanePriority 0"
    and "trace s2 = map (\<lambda>c. Invoked c True SyncLanePriority Scheduler_ImmediatePriority) ran"
    by (elim exE)
  with run2 have second: "\<exists>n r s' ran. flush_via False n True ?Q = Some (r, s') \<and>
     currentUpdateLanePriority s' = OtherLanePriority 0 \<and>
     trace s' = map (\<lambda>c. Invoked c True SyncLanePriority Scheduler_ImmediatePriority) ran"
    by (intro exI[of _ m] exI[of _ r2] exI[of _ s2] exI[of _ ran] conjI)
  from first second show ?thesis by (rule conjI)
qed




end
